theory Spec2Isabelle
  imports Complex_Main "HOL-Library.Char_ord" "HOL-Library.List_Lexorder"
    "HOL-Library.Option_ord"
begin

section \<open>Python exceptions\<close>

text \<open>
  The exception classes that the modelled code can meet. A function of the source that
  may raise returns \<open>py_error + 'a\<close> here, with \<open>Inl\<close> for the raised exception.
\<close>

datatype py_error =
  ValueError | OverflowError | OSError | TypeError | ZeroDivisionError | OperationalError

section \<open>Calendar dates (\<open>datetime.date\<close>)\<close>

text \<open>
  A \<open>datetime.date\<close> holds a year, a month and a day of the proleptic Gregorian calendar.
  Its arithmetic goes through the ordinal of the date (0001-01-01 is day 1); the
  definitions below follow the library's own helper functions.
\<close>

datatype date = Date (year: int) (month: int) (day: int)

definition is_leap :: "int \<Rightarrow> bool" where
  "is_leap y \<longleftrightarrow> y mod 4 = 0 \<and> (y mod 100 \<noteq> 0 \<or> y mod 400 = 0)"

definition days_before_year :: "int \<Rightarrow> int" where
  "days_before_year y = (let p = y - 1 in p * 365 + p div 4 - p div 100 + p div 400)"

definition DAYS_IN_MONTH :: "int list" where
  "DAYS_IN_MONTH = [-1, 31, 28, 31, 30, 31, 30, 31, 31, 30, 31, 30, 31]"

definition DAYS_BEFORE_MONTH :: "int list" where
  "DAYS_BEFORE_MONTH = [-1, 0, 31, 59, 90, 120, 151, 181, 212, 243, 273, 304, 334]"

definition days_in_month :: "int \<Rightarrow> int \<Rightarrow> int" where
  "days_in_month y m = (if m = 2 \<and> is_leap y then 29 else DAYS_IN_MONTH ! nat m)"

definition days_before_month :: "int \<Rightarrow> int \<Rightarrow> int" where
  "days_before_month y m = DAYS_BEFORE_MONTH ! nat m + (if m > 2 \<and> is_leap y then 1 else 0)"

definition ymd2ord :: "int \<Rightarrow> int \<Rightarrow> int \<Rightarrow> int" where
  "ymd2ord y m d = days_before_year y + days_before_month y m + d"

text \<open>
  The inverse, ordinal to (year, month, day). Its second half finds the month and the
  day from the day \<open>n\<close> of the year (counted from 0) with the library's estimate of the
  month, which is right or one too large.
\<close>

definition md_of :: "bool \<Rightarrow> int \<Rightarrow> int \<times> int" where
  "md_of leapyear n =
     (let m = (n + 50) div 32;
          preceding = DAYS_BEFORE_MONTH ! nat m + (if m > 2 \<and> leapyear then 1 else 0)
      in if preceding > n
         then let m' = m - 1;
                  preceding' = preceding
                    - (DAYS_IN_MONTH ! nat m' + (if m' = 2 \<and> leapyear then 1 else 0))
              in (m', n - preceding' + 1)
         else (m, n - preceding + 1))"

definition ord2ymd :: "int \<Rightarrow> date" where
  "ord2ymd n0 =
     (let n = n0 - 1;
          n400 = n div 146097; n = n mod 146097;
          n100 = n div 36524; n = n mod 36524;
          n4 = n div 1461; n = n mod 1461;
          n1 = n div 365; n = n mod 365;
          y = n400 * 400 + 1 + n100 * 100 + n4 * 4 + n1
      in if n1 = 4 \<or> n100 = 4 then Date (y - 1) 12 31
         else
           let leapyear = (n1 = 3 \<and> (n4 \<noteq> 24 \<or> n100 = 3))
           in case md_of leapyear n of (m, d) \<Rightarrow> Date y m d)"

definition MAXORDINAL :: int where
  "MAXORDINAL = 3652059"

definition valid_date :: "date \<Rightarrow> bool" where
  "valid_date d \<longleftrightarrow> 1 \<le> year d \<and> year d \<le> 9999 \<and> 1 \<le> month d \<and> month d \<le> 12
     \<and> 1 \<le> day d \<and> day d \<le> days_in_month (year d) (month d)"

definition toordinal :: "date \<Rightarrow> int" where
  "toordinal d = ymd2ord (year d) (month d) (day d)"

text \<open>\<open>date.weekday()\<close>: Monday is 0, Sunday is 6.\<close>

definition weekday :: "date \<Rightarrow> int" where
  "weekday d = (toordinal d + 6) mod 7"

text \<open>
  \<open>d - timedelta(days=k)\<close> and \<open>d + timedelta(days=k)\<close>: the library raises
  \<open>OverflowError\<close> when the resulting ordinal leaves the range of \<open>date\<close>.
\<close>

definition date_add_days :: "date \<Rightarrow> int \<Rightarrow> py_error + date" where
  "date_add_days d k =
     (let n = toordinal d + k
      in if 0 < n \<and> n \<le> MAXORDINAL then Inr (ord2ymd n) else Inl OverflowError)"

definition date_sub_days :: "date \<Rightarrow> int \<Rightarrow> py_error + date" where
  "date_sub_days d k = date_add_days d (- k)"

text \<open>\<open>(d2 - d1).days\<close>\<close>

definition days_between :: "date \<Rightarrow> date \<Rightarrow> int" where
  "days_between d2 d1 = toordinal d2 - toordinal d1"

text \<open>Comparison of dates: by year, then month, then day.\<close>

definition date_less :: "date \<Rightarrow> date \<Rightarrow> bool" where
  "date_less a b \<longleftrightarrow> year a < year b \<or> (year a = year b \<and>
     (month a < month b \<or> (month a = month b \<and> day a < day b)))"

section \<open>Formatting and parsing with \<open>%Y-%m-%d\<close>\<close>

definition digit_char :: "nat \<Rightarrow> char" where
  "digit_char n = char_of (48 + n)"

function decimal :: "nat \<Rightarrow> string" where
  "decimal n = (if n < 10 then [digit_char n] else decimal (n div 10) @ [digit_char (n mod 10)])"
  by pat_completeness auto
termination
  by (relation "measure id") auto

declare decimal.simps [simp del]

definition pad2 :: "int \<Rightarrow> string" where
  "pad2 n = [digit_char (nat n div 10), digit_char (nat n mod 10)]"

text \<open>
  \<open>d.strftime("%Y-%m-%d")\<close>. The month and the day are zero-padded to two digits; the
  year is printed as the C library of the target platform (glibc) prints it, in plain
  decimal, which is four digits for every year from 1000 on.
\<close>

definition strftime :: "date \<Rightarrow> string" where
  "strftime d = decimal (nat (year d)) @ ''-'' @ pad2 (month d) @ ''-'' @ pad2 (day d)"

definition is_digit :: "char \<Rightarrow> bool" where
  "is_digit c \<longleftrightarrow> CHR ''0'' \<le> c \<and> c \<le> CHR ''9''"

definition digit_val :: "char \<Rightarrow> int" where
  "digit_val c = int (of_char c) - 48"

text \<open>
  The directives of \<open>strptime\<close> are regular expressions:
  \<open>%Y\<close> is \<^verbatim>\<open>\d\d\d\d\<close>, \<open>%m\<close> is \<^verbatim>\<open>1[0-2]|0[1-9]|[1-9]\<close> and
  \<open>%d\<close> is \<^verbatim>\<open>3[0-1]|[1-2]\d|0[1-9]|[1-9]| [1-9]\<close>. Each function returns the number
  read when the whole of its argument matches.
\<close>

definition match_Y :: "string \<Rightarrow> int option" where
  "match_Y s = (case s of
       [a, b, c, d] \<Rightarrow>
         if is_digit a \<and> is_digit b \<and> is_digit c \<and> is_digit d
         then Some (1000 * digit_val a + 100 * digit_val b + 10 * digit_val c + digit_val d)
         else None
     | _ \<Rightarrow> None)"

definition match_m :: "string \<Rightarrow> int option" where
  "match_m s = (case s of
       [a] \<Rightarrow> if is_digit a \<and> a \<noteq> CHR ''0'' then Some (digit_val a) else None
     | [a, b] \<Rightarrow>
         if a = CHR ''1'' \<and> CHR ''0'' \<le> b \<and> b \<le> CHR ''2'' then Some (10 + digit_val b)
         else if a = CHR ''0'' \<and> is_digit b \<and> b \<noteq> CHR ''0'' then Some (digit_val b)
         else None
     | _ \<Rightarrow> None)"

definition match_d :: "string \<Rightarrow> int option" where
  "match_d s = (case s of
       [a] \<Rightarrow> if is_digit a \<and> a \<noteq> CHR ''0'' then Some (digit_val a) else None
     | [a, b] \<Rightarrow>
         if a = CHR ''3'' \<and> CHR ''0'' \<le> b \<and> b \<le> CHR ''1'' then Some (30 + digit_val b)
         else if CHR ''1'' \<le> a \<and> a \<le> CHR ''2'' \<and> is_digit b
           then Some (10 * digit_val a + digit_val b)
         else if (a = CHR ''0'' \<or> a = CHR '' '') \<and> is_digit b \<and> b \<noteq> CHR ''0''
           then Some (digit_val b)
         else None
     | _ \<Rightarrow> None)"

text \<open>
  \<open>datetime.strptime(s, "%Y-%m-%d").date()\<close>: \<open>None\<close> stands for the \<open>ValueError\<close>
  raised when the text does not match the format, when text remains after the match, or
  when the numbers read are not a date.
\<close>

definition strptime :: "string \<Rightarrow> date option" where
  "strptime s =
     (case match_Y (take 4 s) of
        None \<Rightarrow> None
      | Some y \<Rightarrow>
          (case drop 4 s of
             [] \<Rightarrow> None
           | c # rest \<Rightarrow>
               if c \<noteq> CHR ''-'' then None
               else
                 (case match_m (takeWhile (\<lambda>x. x \<noteq> CHR ''-'') rest) of
                    None \<Rightarrow> None
                  | Some m \<Rightarrow>
                      (case dropWhile (\<lambda>x. x \<noteq> CHR ''-'') rest of
                         [] \<Rightarrow> None
                       | _ # ds \<Rightarrow>
                           (case match_d ds of
                              None \<Rightarrow> None
                            | Some d \<Rightarrow>
                                if valid_date (Date y m d) then Some (Date y m d)
                                else None)))))"

text \<open>
  The ISO form of a date, \<open>YYYY-MM-DD\<close> with every field zero-padded
  (\<open>date.isoformat()\<close>), and the keys of a mapping from ISO dates to counts: a key is
  an ISO date when it parses to a date and is the ISO form of that date.
\<close>

definition pad4 :: "int \<Rightarrow> string" where
  "pad4 n = [digit_char (nat n div 1000 mod 10), digit_char (nat n div 100 mod 10),
             digit_char (nat n div 10 mod 10), digit_char (nat n mod 10)]"

definition isoformat :: "date \<Rightarrow> string" where
  "isoformat d = pad4 (year d) @ ''-'' @ pad2 (month d) @ ''-'' @ pad2 (day d)"

definition iso_key :: "string \<Rightarrow> bool" where
  "iso_key s \<longleftrightarrow> (case strptime s of None \<Rightarrow> False | Some d \<Rightarrow> isoformat d = s)"

section \<open>The daily-count mapping\<close>

text \<open>
  \<open>self.review_counts\<close> is a \<open>dict\<close> from date strings to counts. A Python \<open>dict\<close>
  keeps its keys in insertion order and holds each key once: it is modelled as an
  association list whose keys are distinct.
\<close>

type_synonym review_counts = "(string \<times> int) list"

definition dict_keys :: "review_counts \<Rightarrow> string list" where
  "dict_keys rc = map fst rc"

definition dict_values :: "review_counts \<Rightarrow> int list" where
  "dict_values rc = map snd rc"

definition is_dict :: "review_counts \<Rightarrow> bool" where
  "is_dict rc \<longleftrightarrow> distinct (dict_keys rc)"

text \<open>\<open>rc.get(k, dflt)\<close>\<close>

definition dict_get :: "review_counts \<Rightarrow> string \<Rightarrow> int \<Rightarrow> int" where
  "dict_get rc k dflt = (case map_of rc k of None \<Rightarrow> dflt | Some v \<Rightarrow> v)"

text \<open>\<open>rc[k] = v\<close>: an existing key keeps its place, a new key goes to the end.\<close>

fun dict_set :: "review_counts \<Rightarrow> string \<Rightarrow> int \<Rightarrow> review_counts" where
  "dict_set [] k v = [(k, v)]"
| "dict_set ((k', v') # rest) k v =
     (if k' = k then (k, v) # rest else (k', v') # dict_set rest k v)"

section \<open>Streaks\<close>

text \<open>
  The current date \<open>datetime.datetime.now().date()\<close> is the parameter \<open>now\<close> of every
  function that reads the clock.
\<close>

text \<open>
  The loop of \<open>calculate_current_streak\<close> over \<open>range(0, 30)\<close>; the list holds the values
  of \<open>i\<close> still to come.
\<close>

fun current_streak_loop :: "date \<Rightarrow> review_counts \<Rightarrow> int list \<Rightarrow> nat \<Rightarrow> py_error + nat" where
  "current_streak_loop today rc [] streak = Inr streak"
| "current_streak_loop today rc (i # is) streak =
     (case date_sub_days today i of
        Inl e \<Rightarrow> Inl e
      | Inr check_date \<Rightarrow>
          (let date_str = strftime check_date
           in if date_str \<in> set (dict_keys rc) \<and> dict_get rc date_str 0 > 0
              then current_streak_loop today rc is (streak + 1)
              else Inr streak))"

definition calculate_current_streak :: "date \<Rightarrow> review_counts \<Rightarrow> py_error + nat" where
  "calculate_current_streak now rc =
     (if rc = [] then Inr 0
      else current_streak_loop now rc (map int [0..<30]) 0)"

text \<open>
  The loop of \<open>calculate_longest_streak\<close> over \<open>range(1, len(dates))\<close>: the head of the
  list is \<open>dates[i-1]\<close>, its second element \<open>dates[i]\<close>. Both are parsed in each round,
  and a key that does not parse raises \<open>ValueError\<close>.
\<close>

fun longest_streak_loop :: "string list \<Rightarrow> nat \<Rightarrow> nat \<Rightarrow> py_error + nat" where
  "longest_streak_loop (a # b # rest) max_streak current_streak =
     (case strptime a of
        None \<Rightarrow> Inl ValueError
      | Some date1 \<Rightarrow>
          (case strptime b of
             None \<Rightarrow> Inl ValueError
           | Some date2 \<Rightarrow>
               if days_between date2 date1 = 1
               then longest_streak_loop (b # rest) max_streak (current_streak + 1)
               else longest_streak_loop (b # rest) (max max_streak current_streak) 1))"
| "longest_streak_loop dates max_streak current_streak = Inr (max max_streak current_streak)"

definition calculate_longest_streak :: "review_counts \<Rightarrow> py_error + nat" where
  "calculate_longest_streak rc =
     (if rc = [] then Inr 0
      else
        let dates = sort (dict_keys rc)
        in if dates = [] then Inr 0 else longest_streak_loop dates 0 1)"

section \<open>The clock policy and the grid\<close>

text \<open>
  \<open>update_date_range_label\<close>, \<open>update_stats_label\<close>, \<open>on_heatmap_motion\<close>,
  \<open>get_days_in_2025\<close> and \<open>draw_heatmap\<close> each read the clock and then replace a date
  outside 2025 by 26 February 2025. The five copies of that statement are this function.
\<close>

definition effective_today :: "date \<Rightarrow> date" where
  "effective_today now = (if year now \<noteq> 2025 then Date 2025 2 26 else now)"

definition start_date :: date where
  "start_date = Date 2025 1 1"

definition get_days_in_2025 :: "date \<Rightarrow> int" where
  "get_days_in_2025 now =
     (let today = effective_today now in days_between today start_date + 1)"

definition days_to_show :: "date \<Rightarrow> int" where
  "days_to_show now = min (get_days_in_2025 now) 105"

text \<open>
  \<open>update_date_range_label\<close> formats two dates into the label: the start of the range
  and the end of the range.
\<close>

definition update_date_range_label :: "date \<Rightarrow> date \<times> date" where
  "update_date_range_label now = (start_date, effective_today now)"

text \<open>
  \<open>draw_heatmap\<close>: the number of columns for a drawing area \<open>width\<close> pixels wide, and the
  cell (row, column) at which the loop over \<open>range(days_to_show)\<close> draws a date.
\<close>

definition draw_cols :: "date \<Rightarrow> int \<Rightarrow> int" where
  "draw_cols now width = min (days_to_show now div 7 + 1) (width div 20)"

definition draw_cell :: "date \<Rightarrow> int \<times> int" where
  "draw_cell current_date =
     (let days_since_start = days_between current_date start_date;
          week_number = days_since_start div 7;
          day_of_week = weekday current_date
      in (day_of_week, week_number))"

text \<open>
  The loop over the days: every \<open>i\<close> gives the date \<open>start_date + i\<close>, which is skipped
  when it lies after today and is drawn at its cell otherwise. The result lists the dates
  drawn with their row and column.
\<close>

fun draw_cells_loop :: "date \<Rightarrow> int list \<Rightarrow> py_error + (date \<times> int \<times> int) list" where
  "draw_cells_loop today [] = Inr []"
| "draw_cells_loop today (i # is) =
     (case date_add_days start_date i of
        Inl e \<Rightarrow> Inl e
      | Inr current_date \<Rightarrow>
          (case draw_cells_loop today is of
             Inl e \<Rightarrow> Inl e
           | Inr cells \<Rightarrow>
               if date_less today current_date then Inr cells
               else Inr ((current_date, draw_cell current_date) # cells)))"

text \<open>
  Before the loop, \<open>draw_heatmap\<close> divides the width by the number of columns
  (\<open>cell_width = min(18, width / cols)\<close>), which raises \<open>ZeroDivisionError\<close> when
  there is no column, as for a width under 20 pixels.
\<close>

definition draw_cells :: "date \<Rightarrow> int \<Rightarrow> py_error + (date \<times> int \<times> int) list" where
  "draw_cells now width =
     (let cols = draw_cols now width
      in if cols = 0 then Inl ZeroDivisionError
         else draw_cells_loop (effective_today now) (map int [0..<nat (days_to_show now)]))"

text \<open>
  \<open>on_heatmap_motion\<close>. The handler first divides the width by the number of columns
  (\<open>cell_width = min(18, width / cols)\<close>), which raises \<open>ZeroDivisionError\<close> when
  there is no column: for a width under 20 pixels and while fewer than seven days of 2025
  are available. The function below is the handler from the point where the pointer has
  been turned into a cell \<open>(row, col)\<close>: the date the tooltip shows for that cell.
  \<open>Inr None\<close> is the tooltip hidden (the cell is outside the grid or its date lies after
  today).
\<close>

definition motion_cols :: "date \<Rightarrow> int \<Rightarrow> int" where
  "motion_cols now width = min (days_to_show now div 7) (width div 20)"

definition motion_cell_date :: "date \<Rightarrow> int \<Rightarrow> int \<Rightarrow> int \<Rightarrow> py_error + date option" where
  "motion_cell_date now width row col =
     (let cols = motion_cols now width; rows = 7
      in if cols = 0 then Inl ZeroDivisionError
         else if col \<ge> cols \<or> row \<ge> rows then Inr None
         else
           let today = effective_today now;
               week_number = cols - 1 - col;
               day_of_week = row;
               days_from_start = week_number * 7 + day_of_week
           in (case date_add_days start_date days_from_start of
                 Inl e \<Rightarrow> Inl e
               | Inr cell_date \<Rightarrow>
                   if date_less today cell_date then Inr None else Inr (Some cell_date)))"

section \<open>Cell colours\<close>

text \<open>
  The colour components are Python floats. A float operation is the exact operation on
  rational numbers followed by rounding to a float; the rounding function is the
  parameter \<open>rnd\<close>, and a float literal is the rounding of the decimal number written.
  Nothing but the properties collected in \<open>rounding\<close> (which IEEE rounding to nearest
  has) is used of it.
\<close>

definition rounding :: "(rat \<Rightarrow> rat) \<Rightarrow> bool" where
  "rounding rnd \<longleftrightarrow> mono rnd \<and> rnd 0 = 0 \<and> rnd 1 = 1"

type_synonym colour = "rat \<times> rat \<times> rat"

text \<open>\<open>max(values)\<close> of a non-empty list.\<close>

definition py_max :: "int list \<Rightarrow> int" where
  "py_max vs = fold max (tl vs) (hd vs)"

text \<open>
  \<open>draw_heatmap\<close>: the maximum used for scaling. It starts as 1 and is replaced by the
  largest stored count when the mapping is not empty.
\<close>

definition max_count :: "review_counts \<Rightarrow> int" where
  "max_count rc = (if rc \<noteq> [] then py_max (dict_values rc) else 1)"

text \<open>
  \<open>intensity = min(1.0, count / max_count) if count > 0 else 0\<close>; the division of two
  integers raises \<open>ZeroDivisionError\<close> for a zero divisor.
\<close>

definition cell_intensity :: "(rat \<Rightarrow> rat) \<Rightarrow> int \<Rightarrow> int \<Rightarrow> py_error + rat" where
  "cell_intensity rnd count mx =
     (if count > 0 then
        (if mx = 0 then Inl ZeroDivisionError
         else Inr (min 1 (rnd (of_int count / of_int mx))))
      else Inr 0)"

definition neutral_colour :: "(rat \<Rightarrow> rat) \<Rightarrow> colour" where
  "neutral_colour rnd = (rnd (9 / 10), rnd (9 / 10), rnd (9 / 10))"

definition cell_colour :: "(rat \<Rightarrow> rat) \<Rightarrow> int \<Rightarrow> int \<Rightarrow> py_error + colour" where
  "cell_colour rnd count mx =
     (case cell_intensity rnd count mx of
        Inl e \<Rightarrow> Inl e
      | Inr intensity \<Rightarrow>
          if count > 0
          then Inr (rnd (15 / 100), rnd (rnd (4 / 10) + rnd (intensity * rnd (5 / 10))),
                    rnd (15 / 100))
          else Inr (neutral_colour rnd))"

text \<open>The count that \<open>draw_heatmap\<close> reads for the cell of a date.\<close>

definition cell_count :: "review_counts \<Rightarrow> date \<Rightarrow> int" where
  "cell_count rc current_date = dict_get rc (strftime current_date) 0"

section \<open>Loading the review data\<close>

text \<open>
  The review log is a table of an SQLite database. A column holds integers or NULL
  (\<open>None\<close>); a table is the list of its columns, each with its name and its values in
  row order; a database is the list of its tables by name.
\<close>

type_synonym sql_table = "(string \<times> int option list) list"

record database =
  tables :: "(string \<times> sql_table) list"

text \<open>SQLite divides integers by truncating toward zero.\<close>

definition sql_div :: "int \<Rightarrow> int \<Rightarrow> int" where
  "sql_div a b = sgn a * sgn b * (\<bar>a\<bar> div \<bar>b\<bar>)"

text \<open>\<open>CAST(id/1000 AS INTEGER)/86400\<close>; an operation on NULL is NULL.\<close>

definition day_of_id :: "int option \<Rightarrow> int option" where
  "day_of_id v = (case v of None \<Rightarrow> None | Some i \<Rightarrow> Some (sql_div (sql_div i 1000) 86400))"

text \<open>
  \<open>SELECT day, COUNT(*) ... GROUP BY day ORDER BY day\<close> over the day values of the rows:
  one result row for each distinct day, with the number of rows of that day, in ascending
  order of the day (NULL sorts first).
\<close>

definition group_count :: "int option list \<Rightarrow> (int option \<times> int) list" where
  "group_count days =
     map (\<lambda>d. (d, int (length (filter (\<lambda>x. x = d) days)))) (sort (remdups days))"

text \<open>
  SQLite compares the names of columns without regard to the case of the ASCII letters;
  \<open>sql_column\<close> is the column that an identifier of a query denotes.
\<close>

definition ascii_lower :: "char \<Rightarrow> char" where
  "ascii_lower c =
     (if CHR ''A'' \<le> c \<and> c \<le> CHR ''Z'' then char_of (of_char c + (32::nat)) else c)"

definition sql_name_eq :: "string \<Rightarrow> string \<Rightarrow> bool" where
  "sql_name_eq a b \<longleftrightarrow> map ascii_lower a = map ascii_lower b"

definition sql_column :: "sql_table \<Rightarrow> string \<Rightarrow> int option list option" where
  "sql_column t name =
     (case filter (\<lambda>c. sql_name_eq (fst c) name) t of
        [] \<Rightarrow> None
      | c # _ \<Rightarrow> Some (snd c))"

text \<open>
  The first query on a table that has a column named \<open>day\<close> beside \<open>id\<close>: SQLite reads
  the \<open>day\<close> of \<open>GROUP BY\<close> as the column of the table, not as the computed value of the
  result. There is one result row for each distinct value of the column, with the number
  of rows of that value; its first field is the computed day of one row of the group,
  which SQLite is free to choose (the parameter \<open>bare_column\<close> makes the choice from the
  computed days of the group in row order). \<open>ORDER BY day\<close> sorts by the computed day of
  the result.
\<close>

definition group_count_by_column ::
  "(int option list \<Rightarrow> int option) \<Rightarrow> int option list \<Rightarrow> int option list
     \<Rightarrow> (int option \<times> int) list" where
  "group_count_by_column bare_column computed days =
     sort_key fst
       (map (\<lambda>g. (bare_column (map fst (filter (\<lambda>r. snd r = g) (zip computed days))),
                   int (length (filter (\<lambda>x. x = g) days))))
          (sort (remdups days)))"

text \<open>
  The query that \<open>load_anki_data\<close> runs. Python looks for the exact name \<open>id\<close> among the
  column names of the table and then sends the first query, otherwise the second one on a
  \<open>day\<close> column; SQLite raises \<open>OperationalError\<close> for a column that does not exist.
\<close>

definition run_query ::
  "(int option list \<Rightarrow> int option) \<Rightarrow> sql_table \<Rightarrow> py_error + (int option \<times> int) list" where
  "run_query bare_column t =
     (let column_names = map fst t
      in if ''id'' \<in> set column_names
         then
           (let computed = map day_of_id (the (sql_column t ''id''))
            in case sql_column t ''day'' of
                 None \<Rightarrow> Inr (group_count computed)
               | Some days \<Rightarrow> Inr (group_count_by_column bare_column computed days))
         else (case sql_column t ''day'' of
                 None \<Rightarrow> Inl OperationalError
               | Some days \<Rightarrow> Inr (group_count days)))"

text \<open>\<open>date_str.startswith(p)\<close>\<close>

definition startswith :: "string \<Rightarrow> string \<Rightarrow> bool" where
  "startswith s p \<longleftrightarrow> take (length p) s = p"

text \<open>
  The loop over the result rows. \<open>fromtimestamp\<close> is
  \<open>datetime.datetime.fromtimestamp\<close> followed by the date of the result; it depends on the
  platform and on the local time zone and is a parameter. The loop returns the mapping
  built and, when a statement of its body raised an exception that the inner handler does
  not catch, that exception.
\<close>

fun process_rows ::
  "(int \<Rightarrow> py_error + date) \<Rightarrow> (int option \<times> int) list \<Rightarrow> review_counts
     \<Rightarrow> py_error option \<times> review_counts" where
  "process_rows fromtimestamp [] rc = (None, rc)"
| "process_rows fromtimestamp ((day_timestamp, count) # rest) rc =
     (case day_timestamp of
        None \<Rightarrow> (Some TypeError, rc)
      | Some n \<Rightarrow>
          (case fromtimestamp (n * 86400) of
             Inl e \<Rightarrow>
               if e = ValueError \<or> e = OverflowError
               then process_rows fromtimestamp rest rc
               else (Some e, rc)
           | Inr date_obj \<Rightarrow>
               (let date_str = strftime date_obj
                in if startswith date_str ''2025-''
                   then process_rows fromtimestamp rest (dict_set rc date_str count)
                   else process_rows fromtimestamp rest rc)))"

text \<open>
  The texts of the statistics label: \<open>Collection_not_found\<close> is
  ``Anki collection not found'', \<open>Revlog_not_found\<close> is ``Revlog table not found in Anki
  database'', \<open>Error_text e\<close> is ``Error: '' followed by the text of the exception,
  \<open>Stats_text t c l n\<close> is ``Today: t reviews | Current streak: c days | Longest streak: l
  days | Total: n reviews'' and \<open>No_data_text\<close> is ``No 2025 review data found. If you
  use Anki, try clicking Refresh.''
\<close>

datatype stats_text =
  Loading_statistics | Collection_not_found | Revlog_not_found | Error_text py_error
  | Stats_text int nat nat int | No_data_text

text \<open>
  The attributes of the widget that the loading reads and writes. An attribute that has
  not been assigned yet is \<open>None\<close>.
\<close>

record widget =
  review_counts :: review_counts
  current_streak :: "nat option"
  longest_streak :: "nat option"
  total_reviews :: "int option"
  stats_label :: stats_text
  date_range_label :: "(date \<times> date) option"

text \<open>What the program finds outside itself: the file system, the database, the clock.\<close>

record environment =
  find_anki_collection :: "string option"
  connect :: "string \<Rightarrow> py_error + database"
  bare_column :: "int option list \<Rightarrow> int option"
  fromtimestamp :: "int \<Rightarrow> py_error + date"
  now :: date

definition update_stats_label :: "date \<Rightarrow> widget \<Rightarrow> widget" where
  "update_stats_label clock self =
     (let today = effective_today clock;
          today_str = strftime today;
          today_reviews = dict_get (review_counts self) today_str 0
      in if the (total_reviews self) > 0
         then self\<lparr>stats_label :=
                Stats_text today_reviews (the (current_streak self)) (the (longest_streak self))
                  (the (total_reviews self))\<rparr>
         else self\<lparr>stats_label := No_data_text\<rparr>)"

text \<open>
  \<open>load_anki_data\<close>. Every exception raised inside the \<open>try\<close> block ends in the handler
  \<open>except Exception\<close>, which writes the error text into the statistics label.
\<close>

definition load_anki_data :: "environment \<Rightarrow> widget \<Rightarrow> widget" where
  "load_anki_data env self0 =
     (let self = self0\<lparr>review_counts := []\<rparr>
      in case find_anki_collection env of
           None \<Rightarrow> self\<lparr>stats_label := Collection_not_found\<rparr>
         | Some collection_path \<Rightarrow>
             (case connect env collection_path of
                Inl e \<Rightarrow> self\<lparr>stats_label := Error_text e\<rparr>
              | Inr db \<Rightarrow>
                  (case map_of (tables db) ''revlog'' of
                     None \<Rightarrow> self\<lparr>stats_label := Revlog_not_found\<rparr>
                   | Some t \<Rightarrow>
                       (case run_query (bare_column env) t of
                          Inl e \<Rightarrow> self\<lparr>stats_label := Error_text e\<rparr>
                        | Inr rows \<Rightarrow>
                            (case process_rows (fromtimestamp env) rows [] of
                               (Some e, rc) \<Rightarrow>
                                 self\<lparr>review_counts := rc, stats_label := Error_text e\<rparr>
                             | (None, rc) \<Rightarrow>
                                 (case calculate_current_streak (now env) rc of
                                    Inl e \<Rightarrow>
                                      self\<lparr>review_counts := rc, stats_label := Error_text e\<rparr>
                                  | Inr cs \<Rightarrow>
                                      (case calculate_longest_streak rc of
                                         Inl e \<Rightarrow>
                                           self\<lparr>review_counts := rc,
                                             current_streak := Some cs,
                                             stats_label := Error_text e\<rparr>
                                       | Inr ls \<Rightarrow>
                                           (update_stats_label (now env)
                                              (self\<lparr>review_counts := rc,
                                                 current_streak := Some cs,
                                                 longest_streak := Some ls,
                                                 total_reviews := Some (sum_list (dict_values rc))\<rparr>))
                                           \<lparr>date_range_label :=
                                              Some (update_date_range_label (now env))\<rparr>)))))))"

text \<open>
  An instance of \<open>fromtimestamp\<close>: a 64-bit Linux whose local time zone is UTC. The C
  type \<open>time_t\<close> holds 64 bits (\<open>OverflowError\<close> beyond), \<open>localtime\<close> fails when the
  year does not fit its 32-bit field (\<open>OSError\<close>), and a year outside 1..9999 is no
  \<open>datetime\<close> (\<open>ValueError\<close>). The library also looks at the time one day earlier, so
  that a time on 0001-01-01 raises \<open>ValueError\<close> as well. Day 719163 is 1 January 1970.
\<close>

definition fromtimestamp_linux_utc :: "int \<Rightarrow> py_error + date" where
  "fromtimestamp_linux_utc t =
     (if t < - (2 ^ 63) \<or> t \<ge> 2 ^ 63 then Inl OverflowError
      else if t < - 67768040609740800 \<or> t > 67768036191676799 then Inl OSError
      else
        let n = t div 86400 + 719163
        in if n < 2 \<or> n > MAXORDINAL then Inl ValueError else Inr (ord2ymd n))"

section \<open>The command line\<close>

text \<open>
  The block under \<open>if __name__ == "__main__"\<close>: what the program does for the argument
  vector \<open>os.sys.argv\<close>, whose first element is the name of the script.
\<close>

datatype action = InstallAsDesklet | SetupDesktopFile | RunWidget

definition main :: "string list \<Rightarrow> action list" where
  "main argv =
     (if length argv > 1 then
        (if argv ! 1 = ''--install'' then [InstallAsDesklet]
         else if argv ! 1 = ''--autostart'' then [SetupDesktopFile]
         else [])
      else [RunWidget])"

section \<open>Example inputs\<close>

text \<open>The mapping of the scenario of four recorded days.\<close>

definition scenario_counts :: review_counts where
  "scenario_counts =
     [(''2025-01-01'', 3), (''2025-01-02'', 5), (''2025-01-03'', 0), (''2025-01-05'', 2)]"

text \<open>
  A collection whose review log has three reviews, two on 2025-01-01 and one on
  2025-01-02 (the \<open>id\<close> of a review is its time in milliseconds), and the widget before
  its first load.
\<close>

definition example_db :: database where
  "example_db =
     \<lparr>tables = [(''revlog'', [(''id'', [Some 1735732800000, Some 1735736400000,
                                        Some 1735819200000])])]\<rparr>"

definition example_env :: environment where
  "example_env =
     \<lparr>find_anki_collection = Some ''collection.anki2'',
      connect = (\<lambda>path. Inr example_db),
      bare_column = hd,
      fromtimestamp = fromtimestamp_linux_utc,
      now = Date 2025 1 2\<rparr>"

definition initial_widget :: widget where
  "initial_widget =
     \<lparr>review_counts = [], current_streak = None, longest_streak = None,
      total_reviews = None, stats_label = Loading_statistics, date_range_label = None\<rparr>"

text \<open>
  A collection of another schema: the review log has no \<open>id\<close> column but a \<open>day\<close>
  column, with one day far outside the range of the calendar and 1 January 2025.
\<close>

definition day_schema_db :: "int option list \<Rightarrow> database" where
  "day_schema_db days = \<lparr>tables = [(''revlog'', [(''day'', days)])]\<rparr>"

definition day_schema_env :: "int option list \<Rightarrow> environment" where
  "day_schema_env days =
     \<lparr>find_anki_collection = Some ''collection.anki2'',
      connect = (\<lambda>path. Inr (day_schema_db days)),
      bare_column = hd,
      fromtimestamp = fromtimestamp_linux_utc,
      now = Date 2025 1 2\<rparr>"

section \<open>The scan of the longest streak on day numbers\<close>

text \<open>
  For the proofs: the loop of \<open>calculate_longest_streak\<close> read on the ordinals of the
  dates, and the ordinal of the date that a key parses to.
\<close>

fun ord_scan :: "int list \<Rightarrow> nat \<Rightarrow> nat \<Rightarrow> nat" where
  "ord_scan (a # b # rest) mx cur =
     (if b - a = 1 then ord_scan (b # rest) mx (cur + 1)
      else ord_scan (b # rest) (max mx cur) 1)"
| "ord_scan xs mx cur = max mx cur"

definition key_ord :: "string \<Rightarrow> int" where
  "key_ord k = toordinal (the (strptime k))"

section \<open>Sorting the keys\<close>

lemma sort_keys_unique:
  fixes ks :: "string list"
  assumes "distinct ks" and "distinct ks'" and "set ks = set ks'"
  shows "sort ks = sort ks'"
proof (rule sorted_distinct_set_unique)
  show "sorted (sort ks)" and "sorted (sort ks')" by simp_all
  show "distinct (sort ks)" using assms(1) by simp
  show "distinct (sort ks')" using assms(2) by simp
  show "set (sort ks) = set (sort ks')" using assms(3) by simp
qed

lemma longest_streak_keys:
  assumes "is_dict xs" and "is_dict ys" and "set (dict_keys xs) = set (dict_keys ys)"
  shows "calculate_longest_streak xs = calculate_longest_streak ys"
proof -
  have s: "sort (dict_keys xs) = sort (dict_keys ys)"
    using assms by (intro sort_keys_unique) (simp_all add: is_dict_def)
  have "xs = [] \<longleftrightarrow> ys = []"
    using assms(3) by (auto simp: dict_keys_def)
  then show ?thesis
    by (simp add: calculate_longest_streak_def s)
qed

section \<open>Facts about the loading\<close>

lemma dict_set_subset: "set (dict_set rc k v) \<subseteq> insert (k, v) (set rc)"
  by (induction rc k v rule: dict_set.induct) auto

lemma process_rows_positive:
  assumes "\<forall>(d, c) \<in> set rows. 1 \<le> c" and "\<forall>(k, v) \<in> set rc. 1 \<le> v"
  shows "\<forall>(k, v) \<in> set (snd (process_rows ft rows rc)). 1 \<le> v"
  using assms
proof (induction rows arbitrary: rc)
  case Nil
  then show ?case by simp
next
  case (Cons row rows)
  obtain d c where row: "row = (d, c)" by (cases row)
  from Cons.prems(1) row have c: "1 \<le> c" and rest: "\<forall>(d, c) \<in> set rows. 1 \<le> c"
    by auto
  have upd: "\<forall>(k, v) \<in> set (dict_set rc key c). 1 \<le> v" for key
    using dict_set_subset [of rc key c] Cons.prems(2) c by auto
  show ?case
    using Cons.IH [OF rest Cons.prems(2)] Cons.IH [OF rest upd] Cons.prems(2)
    by (simp add: row Let_def split: option.split sum.split)
qed

lemma group_count_positive: "\<forall>(d, c) \<in> set (group_count days). 1 \<le> c"
proof -
  have "1 \<le> int (length (filter (\<lambda>x. x = d) days))" if "d \<in> set days" for d
  proof -
    from that have "filter (\<lambda>x. x = d) days \<noteq> []"
      by (simp add: filter_empty_conv)
    then show ?thesis by (cases "filter (\<lambda>x. x = d) days") simp_all
  qed
  then show ?thesis by (auto simp: group_count_def)
qed

lemma group_count_by_column_positive:
  "\<forall>(d, c) \<in> set (group_count_by_column pick computed days). 1 \<le> c"
proof -
  have "1 \<le> int (length (filter (\<lambda>x. x = g) days))" if "g \<in> set days" for g
  proof -
    from that have "filter (\<lambda>x. x = g) days \<noteq> []"
      by (simp add: filter_empty_conv)
    then show ?thesis by (cases "filter (\<lambda>x. x = g) days") simp_all
  qed
  then show ?thesis by (auto simp: group_count_by_column_def)
qed

lemma run_query_positive:
  assumes "run_query pick t = Inr rows"
  shows "\<forall>(d, c) \<in> set rows. 1 \<le> c"
proof -
  from assms have "(\<exists>days. rows = group_count days)
      \<or> (\<exists>computed days. rows = group_count_by_column pick computed days)"
    by (auto simp: run_query_def Let_def split: if_splits option.splits)
  with group_count_positive group_count_by_column_positive show ?thesis by blast
qed

lemma review_counts_update_stats_label [simp]:
  "review_counts (update_stats_label clock self) = review_counts self"
  by (simp add: update_stats_label_def Let_def)

lemma load_review_counts:
  "review_counts (load_anki_data env self) =
     (case find_anki_collection env of
        None \<Rightarrow> []
      | Some p \<Rightarrow>
          (case connect env p of
             Inl e \<Rightarrow> []
           | Inr db \<Rightarrow>
               (case map_of (tables db) ''revlog'' of
                  None \<Rightarrow> []
                | Some t \<Rightarrow>
                    (case run_query (bare_column env) t of
                       Inl e \<Rightarrow> []
                     | Inr rows \<Rightarrow> snd (process_rows (fromtimestamp env) rows [])))))"
  by (simp add: load_anki_data_def Let_def split: option.split sum.split prod.split)

lemma load_review_counts_positive:
  "\<forall>(k, v) \<in> set (review_counts (load_anki_data env self)). 1 \<le> v"
proof -
  have p: "\<forall>(k, v) \<in> set (snd (process_rows ft rows [])). 1 \<le> v"
    if "run_query pick t = Inr rows" for ft pick t rows
    using process_rows_positive [OF run_query_positive [OF that], of "[]" ft] by simp
  show ?thesis
  proof (cases "find_anki_collection env")
    case None
    then show ?thesis by (simp add: load_review_counts)
  next
    case (Some path)
    show ?thesis
    proof (cases "connect env path")
      case (Inl e)
      with Some show ?thesis by (simp add: load_review_counts)
    next
      case (Inr db)
      show ?thesis
      proof (cases "map_of (tables db) ''revlog''")
        case None
        with Some Inr show ?thesis by (simp add: load_review_counts)
      next
        case t: (Some t)
        show ?thesis
        proof (cases "run_query (bare_column env) t")
          case (Inl e)
          with Some Inr t show ?thesis by (simp add: load_review_counts)
        next
          case rows: (Inr rows)
          from p [OF rows, of "fromtimestamp env"] Some Inr t rows show ?thesis
            by (simp add: load_review_counts)
        qed
      qed
    qed
  qed
qed

lemma example_load:
  "review_counts (load_anki_data example_env initial_widget)
     = [(''2025-01-01'', 2), (''2025-01-02'', 1)]"
  by code_simp

section \<open>Facts about the colours\<close>

lemma fold_max_ge_init: "(a::int) \<le> fold max xs a"
proof (induction xs arbitrary: a)
  case Nil
  show ?case by simp
next
  case (Cons x xs)
  have "a \<le> max x a" by simp
  also have "\<dots> \<le> fold max xs (max x a)" by (rule Cons.IH)
  finally show ?case by simp
qed

lemma py_max_ge: 
  assumes "v \<in> set vs"
  shows "v \<le> py_max vs"
proof -
  from assms obtain x xs where vs: "vs = x # xs" by (cases vs) auto
  have "py_max vs = Max (set vs)"
    unfolding vs py_max_def using Max.set_eq_fold [of x xs] by simp
  with assms show ?thesis by simp
qed

lemma max_count_ge_stored:
  assumes "(k, v) \<in> set rc"
  shows "v \<le> max_count rc"
proof -
  from assms have "rc \<noteq> []" by auto
  moreover from assms have "snd (k, v) \<in> snd ` set rc" by (rule imageI)
  then have "v \<in> set (dict_values rc)" by (simp add: dict_values_def)
  ultimately
  show ?thesis by (simp add: max_count_def py_max_ge)
qed

lemma max_count_load: "1 \<le> max_count (review_counts (load_anki_data env self))"
proof (cases "review_counts (load_anki_data env self)")
  case Nil
  then show ?thesis by (simp add: max_count_def)
next
  case (Cons kv rest)
  obtain k v where kv: "kv = (k, v)" by (cases kv)
  with Cons have m: "(k, v) \<in> set (review_counts (load_anki_data env self))" by simp
  with load_review_counts_positive [of env self] have "1 \<le> v" by auto
  also from m have "v \<le> max_count (review_counts (load_anki_data env self))"
    by (rule max_count_ge_stored)
  finally show ?thesis .
qed

lemma cell_count_le_max:
  assumes "0 < cell_count rc d"
  shows "cell_count rc d \<le> max_count rc"
proof -
  from assms obtain v where "map_of rc (strftime d) = Some v" and "cell_count rc d = v"
    by (auto simp: cell_count_def dict_get_def split: option.splits)
  then show ?thesis using max_count_ge_stored [of "strftime d" v rc]
    by (auto dest: map_of_SomeD)
qed

lemma rounding_nonneg:
  assumes "rounding rnd" and "0 \<le> x"
  shows "0 \<le> rnd x"
proof -
  from assms(1) have "mono rnd" by (simp add: rounding_def)
  from monoD [OF this assms(2)] have "rnd 0 \<le> rnd x" .
  with assms(1) show ?thesis by (simp add: rounding_def)
qed

lemma intensity_mono:
  assumes r: "rounding rnd" and m: "1 \<le> m" and c: "c1 \<le> c2"
  shows "\<exists>i1 i2. cell_intensity rnd c1 m = Inr i1 \<and> cell_intensity rnd c2 m = Inr i2
           \<and> 0 \<le> i1 \<and> i1 \<le> i2"
proof (cases "0 < c1")
  case True
  with c have c2: "0 < c2" by simp
  have "(of_int c1 :: rat) / of_int m \<le> of_int c2 / of_int m"
    using c m by (intro divide_right_mono) simp_all
  moreover from r have "mono rnd" by (simp add: rounding_def)
  ultimately have le: "rnd (of_int c1 / of_int m) \<le> rnd (of_int c2 / of_int m)"
    by (rule monoD [rotated])
  have "0 \<le> (of_int c1 :: rat) / of_int m" using True m by simp
  with r have "0 \<le> rnd (of_int c1 / of_int m)" by (rule rounding_nonneg)
  with le True c2 m show ?thesis
    by (simp add: cell_intensity_def min_le_iff_disj)
next
  case False
  show ?thesis
  proof (cases "0 < c2")
    case True
    have "0 \<le> (of_int c2 :: rat) / of_int m" using True m by simp
    with r have "0 \<le> rnd (of_int c2 / of_int m)" by (rule rounding_nonneg)
    with False True m show ?thesis by (simp add: cell_intensity_def)
  next
    case c2: False
    with False show ?thesis by (simp add: cell_intensity_def)
  qed
qed

lemma green_mono:
  assumes r: "rounding rnd" and i: "i1 \<le> i2"
  shows "rnd (rnd (4 / 10) + rnd (i1 * rnd (5 / 10))) \<le> rnd (rnd (4 / 10) + rnd (i2 * rnd (5 / 10)))"
proof -
  from r have k: "0 \<le> rnd (5 / 10)" by (rule rounding_nonneg) simp
  from r have "mono rnd" by (simp add: rounding_def)
  then have mono: "x \<le> y \<Longrightarrow> rnd x \<le> rnd y" for x y
    by (rule monoD)
  from i k have "i1 * rnd (5 / 10) \<le> i2 * rnd (5 / 10)" by (rule mult_right_mono)
  then have "rnd (i1 * rnd (5 / 10)) \<le> rnd (i2 * rnd (5 / 10))" by (rule mono)
  then have "rnd (4 / 10) + rnd (i1 * rnd (5 / 10)) \<le> rnd (4 / 10) + rnd (i2 * rnd (5 / 10))"
    by simp
  then show ?thesis by (rule mono)
qed

lemma colour_mono:
  assumes r: "rounding rnd" and m: "1 \<le> m" and c1: "0 < c1" and c: "c1 \<le> c2"
  shows "\<exists>r1 g1 b1 g2. cell_colour rnd c1 m = Inr (r1, g1, b1)
           \<and> cell_colour rnd c2 m = Inr (r1, g2, b1) \<and> g1 \<le> g2"
proof -
  from intensity_mono [OF r m c] obtain i1 i2
    where i: "cell_intensity rnd c1 m = Inr i1" "cell_intensity rnd c2 m = Inr i2" "i1 \<le> i2"
    by blast
  from c1 c have "0 < c2" by simp
  with i c1 green_mono [OF r i(3)] show ?thesis
    by (simp add: cell_colour_def)
qed

lemma zero_neutral: "cell_colour rnd 0 m = Inr (neutral_colour rnd)"
  by (simp add: cell_colour_def cell_intensity_def)

lemma draw_no_zero_division:
  "\<exists>col. cell_colour rnd (cell_count rc d) (max_count rc) = Inr col"
proof (cases "0 < cell_count rc d")
  case True
  with cell_count_le_max [OF True] have "max_count rc \<noteq> 0" by simp
  with True show ?thesis by (simp add: cell_colour_def cell_intensity_def)
next
  case False
  then show ?thesis by (simp add: cell_colour_def cell_intensity_def neutral_colour_def)
qed

lemma rounding_id: "rounding (\<lambda>x. x)"
  by (simp add: rounding_def mono_def)

section \<open>Facts about the calendar\<close>

lemma nth_DBM:
  "DAYS_BEFORE_MONTH ! Suc 0 = 0" "DAYS_BEFORE_MONTH ! 2 = 31" "DAYS_BEFORE_MONTH ! 3 = 59"
  "DAYS_BEFORE_MONTH ! 4 = 90" "DAYS_BEFORE_MONTH ! 5 = 120" "DAYS_BEFORE_MONTH ! 6 = 151"
  "DAYS_BEFORE_MONTH ! 7 = 181" "DAYS_BEFORE_MONTH ! 8 = 212" "DAYS_BEFORE_MONTH ! 9 = 243"
  "DAYS_BEFORE_MONTH ! 10 = 273" "DAYS_BEFORE_MONTH ! 11 = 304" "DAYS_BEFORE_MONTH ! 12 = 334"
  by (simp_all add: DAYS_BEFORE_MONTH_def eval_nat_numeral)

lemma nth_DIM:
  "DAYS_IN_MONTH ! Suc 0 = 31" "DAYS_IN_MONTH ! 2 = 28" "DAYS_IN_MONTH ! 3 = 31"
  "DAYS_IN_MONTH ! 4 = 30" "DAYS_IN_MONTH ! 5 = 31" "DAYS_IN_MONTH ! 6 = 30"
  "DAYS_IN_MONTH ! 7 = 31" "DAYS_IN_MONTH ! 8 = 31" "DAYS_IN_MONTH ! 9 = 30"
  "DAYS_IN_MONTH ! 10 = 31" "DAYS_IN_MONTH ! 11 = 30" "DAYS_IN_MONTH ! 12 = 31"
  by (simp_all add: DAYS_IN_MONTH_def eval_nat_numeral)

lemma month_cases:
  assumes "1 \<le> (m::int)" and "m \<le> 12"
  obtains "m = 1" | "m = 2" | "m = 3" | "m = 4" | "m = 5" | "m = 6"
    | "m = 7" | "m = 8" | "m = 9" | "m = 10" | "m = 11" | "m = 12"
proof -
  from assms have "m = 1 \<or> m = 2 \<or> m = 3 \<or> m = 4 \<or> m = 5 \<or> m = 6
      \<or> m = 7 \<or> m = 8 \<or> m = 9 \<or> m = 10 \<or> m = 11 \<or> m = 12"
    by arith
  with that show thesis by blast
qed

lemma md_of_correct:
  assumes "0 \<le> n" and "n \<le> (if leap then 365 else 364)"
  shows "case md_of leap n of (m, d) \<Rightarrow>
           1 \<le> m \<and> m \<le> 12 \<and> 1 \<le> d
           \<and> d \<le> (if m = 2 \<and> leap then 29 else DAYS_IN_MONTH ! nat m)
           \<and> DAYS_BEFORE_MONTH ! nat m + (if m > 2 \<and> leap then 1 else 0) + d = n + 1"
proof -
  define m where "m = (n + 50) div 32"
  have m: "32 * m \<le> n + 50" "n + 50 < 32 * m + 32" by (simp_all add: m_def)
  with assms have "1 \<le> m" "m \<le> 12" by (auto split: if_splits)
  then show ?thesis
  proof (cases rule: month_cases)
    case 1
    with m assms show ?thesis unfolding md_of_def m_def [symmetric] Let_def
      by (simp add: nth_DBM nth_DIM split: if_splits)
  next
    case 2
    with m assms show ?thesis unfolding md_of_def m_def [symmetric] Let_def
      by (simp add: nth_DBM nth_DIM split: if_splits)
  next
    case 3
    with m assms show ?thesis unfolding md_of_def m_def [symmetric] Let_def
      by (simp add: nth_DBM nth_DIM split: if_splits)
  next
    case 4
    with m assms show ?thesis unfolding md_of_def m_def [symmetric] Let_def
      by (simp add: nth_DBM nth_DIM split: if_splits)
  next
    case 5
    with m assms show ?thesis unfolding md_of_def m_def [symmetric] Let_def
      by (simp add: nth_DBM nth_DIM split: if_splits)
  next
    case 6
    with m assms show ?thesis unfolding md_of_def m_def [symmetric] Let_def
      by (simp add: nth_DBM nth_DIM split: if_splits)
  next
    case 7
    with m assms show ?thesis unfolding md_of_def m_def [symmetric] Let_def
      by (simp add: nth_DBM nth_DIM split: if_splits)
  next
    case 8
    with m assms show ?thesis unfolding md_of_def m_def [symmetric] Let_def
      by (simp add: nth_DBM nth_DIM split: if_splits)
  next
    case 9
    with m assms show ?thesis unfolding md_of_def m_def [symmetric] Let_def
      by (simp add: nth_DBM nth_DIM split: if_splits)
  next
    case 10
    with m assms show ?thesis unfolding md_of_def m_def [symmetric] Let_def
      by (simp add: nth_DBM nth_DIM split: if_splits)
  next
    case 11
    with m assms show ?thesis unfolding md_of_def m_def [symmetric] Let_def
      by (simp add: nth_DBM nth_DIM split: if_splits)
  next
    case 12
    with m assms show ?thesis unfolding md_of_def m_def [symmetric] Let_def
      by (simp add: nth_DBM nth_DIM split: if_splits)
  qed
qed

lemma mod_zero_iff_full:
  assumes "0 < r" and "r \<le> k"
  shows "(k * q + r) mod k = 0 \<longleftrightarrow> r = (k::int)"
proof (cases "r = k")
  case True
  then show ?thesis by simp
next
  case False
  with assms have "r < k" by simp
  with assms have "(k * q + r) mod k = r"
    by (intro int_mod_pos_eq [where q = q]) simp_all
  with assms False show ?thesis by simp
qed

lemma div4: 
  assumes "0 \<le> e" "e \<le> 3"
  shows "(400 * a + 100 * b + 4 * c + e) div 4 = 100 * a + 25 * b + (c::int)"
  by (rule int_div_pos_eq [where r = e]) (use assms in simp_all)

lemma div100: 
  assumes "0 \<le> e" "e \<le> 3" "0 \<le> c" "c \<le> 24"
  shows "(400 * a + 100 * b + 4 * c + e) div 100 = 4 * a + (b::int)"
  by (rule int_div_pos_eq [where r = "4 * c + e"]) (use assms in simp_all)

lemma div400: 
  assumes "0 \<le> e" "e \<le> 3" "0 \<le> c" "c \<le> 24" "0 \<le> b" "b \<le> 3"
  shows "(400 * a + 100 * b + 4 * c + e) div 400 = (a::int)"
  by (rule int_div_pos_eq [where r = "100 * b + 4 * c + e"]) (use assms in simp_all)

lemma days_before_year_decomp:
  assumes "0 \<le> e" "e \<le> 3" "0 \<le> c" "c \<le> 24" "0 \<le> b" "b \<le> 3"
  shows "days_before_year (400 * a + 100 * b + 4 * c + e + 1)
           = 146097 * a + 36524 * b + 1461 * c + 365 * e"
  using assms by (simp add: days_before_year_def Let_def div4 div100 div400)

lemma is_leap_decomp:
  assumes "0 \<le> e" "e \<le> 3" "0 \<le> c" "c \<le> 24" "0 \<le> b" "b \<le> 3"
  shows "is_leap (400 * a + 100 * b + 4 * c + e + 1) \<longleftrightarrow> e = 3 \<and> (c \<noteq> 24 \<or> b = 3)"
proof -
  let ?y = "400 * a + 100 * b + 4 * c + e + 1"
  have y4: "?y = 4 * (100 * a + 25 * b + c) + (e + 1)" by simp
  have "(4 * (100 * a + 25 * b + c) + (e + 1)) mod 4 = 0 \<longleftrightarrow> e + 1 = 4"
    using assms by (intro mod_zero_iff_full) simp_all
  then have 4: "?y mod 4 = 0 \<longleftrightarrow> e = 3"
    unfolding y4 [symmetric] by linarith
  have y100: "?y = 100 * (4 * a + b) + (4 * c + e + 1)" by simp
  have "(100 * (4 * a + b) + (4 * c + e + 1)) mod 100 = 0 \<longleftrightarrow> 4 * c + e + 1 = 100"
    using assms by (intro mod_zero_iff_full) simp_all
  then have 100: "?y mod 100 = 0 \<longleftrightarrow> c = 24 \<and> e = 3"
    unfolding y100 [symmetric] using assms by linarith
  have y400: "?y = 400 * a + (100 * b + 4 * c + e + 1)" by simp
  have "(400 * a + (100 * b + 4 * c + e + 1)) mod 400 = 0 \<longleftrightarrow> 100 * b + 4 * c + e + 1 = 400"
    using assms by (intro mod_zero_iff_full) simp_all
  then have 400: "?y mod 400 = 0 \<longleftrightarrow> b = 3 \<and> c = 24 \<and> e = 3"
    unfolding y400 [symmetric] using assms by linarith
  show ?thesis unfolding is_leap_def 4 100 400 by auto
qed

lemma ord2ymd_correct:
  assumes "1 \<le> n"
  shows "toordinal (ord2ymd n) = n \<and> 1 \<le> year (ord2ymd n)
     \<and> 1 \<le> month (ord2ymd n) \<and> month (ord2ymd n) \<le> 12 \<and> 1 \<le> day (ord2ymd n)
     \<and> day (ord2ymd n) \<le> days_in_month (year (ord2ymd n)) (month (ord2ymd n))"
proof -
  define a where "a = (n - 1) div 146097"
  define r400 where "r400 = (n - 1) mod 146097"
  define b where "b = r400 div 36524"
  define r100 where "r100 = r400 mod 36524"
  define c where "c = r100 div 1461"
  define r4 where "r4 = r100 mod 1461"
  define e where "e = r4 div 365"
  define r where "r = r4 mod 365"
  note defs = a_def r400_def b_def r100_def c_def r4_def e_def r_def
  have eqs: "n - 1 = 146097 * a + r400" "r400 = 36524 * b + r100" "r100 = 1461 * c + r4"
    "r4 = 365 * e + r"
    by (simp_all add: defs)
  have bounds: "0 \<le> r400" "r400 < 146097" "0 \<le> r100" "r100 < 36524" "0 \<le> r4" "r4 < 1461"
    "0 \<le> r" "r < 365"
    by (simp_all add: defs)
  have a0: "0 \<le> a" using assms by (simp add: a_def pos_imp_zdiv_nonneg_iff)
  have b: "0 \<le> b" "b \<le> 4" using eqs bounds by linarith+
  have c: "0 \<le> c" "c \<le> 24" using eqs bounds by linarith+
  have e: "0 \<le> e" "e \<le> 4" using eqs bounds by linarith+
  have od0: "ord2ymd n =
     (if e = 4 \<or> b = 4 then Date (a * 400 + 1 + b * 100 + c * 4 + e - 1) 12 31
      else case md_of (e = 3 \<and> (c \<noteq> 24 \<or> b = 3)) r of
             (m, d) \<Rightarrow> Date (a * 400 + 1 + b * 100 + c * 4 + e) m d)"
    unfolding ord2ymd_def Let_def defs ..
  have "a * 400 + 1 + b * 100 + c * 4 + e - 1 = 400 * a + 100 * b + 4 * c + e"
    and "a * 400 + 1 + b * 100 + c * 4 + e = 400 * a + 100 * b + 4 * c + e + 1"
    by simp_all
  with od0 have od: "ord2ymd n =
     (if e = 4 \<or> b = 4 then Date (400 * a + 100 * b + 4 * c + e) 12 31
      else case md_of (e = 3 \<and> (c \<noteq> 24 \<or> b = 3)) r of
             (m, d) \<Rightarrow> Date (400 * a + 100 * b + 4 * c + e + 1) m d)"
    by (simp only:)
  show ?thesis
  proof (cases "b = 4")
    case True
    with eqs bounds c e have z: "r100 = 0" "c = 0" "r4 = 0" "e = 0" "r = 0" by linarith+
    have y: "400 * a + 100 * b + 4 * c + e = 400 * a + 100 * 3 + 4 * 24 + 3 + 1"
      using True z by simp
    have n: "n = 146097 * a + 146097" using eqs True z by linarith
    have leap: "is_leap (400 * a + 100 * 3 + 4 * 24 + 3 + 1)"
      by (subst is_leap_decomp) simp_all
    have dby: "days_before_year (400 * a + 100 * 3 + 4 * 24 + 3 + 1) = 146097 * a + 145731"
      by (subst days_before_year_decomp) simp_all
    from True have "ord2ymd n = Date (400 * a + 100 * 3 + 4 * 24 + 3 + 1) 12 31"
      unfolding od y by simp
    with leap dby n a0 show ?thesis
      by (simp add: toordinal_def ymd2ord_def days_before_month_def days_in_month_def
          nth_DBM nth_DIM)
  next
    case b4: False
    with b have b3: "b \<le> 3" by simp
    show ?thesis
    proof (cases "e = 4")
      case True
      with eqs bounds have r0: "r = 0" by linarith
      from True eqs bounds c have c23: "c \<le> 23" by linarith
      have y: "400 * a + 100 * b + 4 * c + e = 400 * a + 100 * b + 4 * c + 3 + 1"
        using True by simp
      have n: "n = 146097 * a + 36524 * b + 1461 * c + 1461" using eqs True r0 by linarith
      have leap: "is_leap (400 * a + 100 * b + 4 * c + 3 + 1)"
        using b b3 c c23 by (subst is_leap_decomp) simp_all
      have dby: "days_before_year (400 * a + 100 * b + 4 * c + 3 + 1)
          = 146097 * a + 36524 * b + 1461 * c + 1095"
        using b b3 c by (subst days_before_year_decomp) simp_all
      from True have "ord2ymd n = Date (400 * a + 100 * b + 4 * c + 3 + 1) 12 31"
        unfolding od y by simp
      with leap dby n a0 b c show ?thesis
        by (simp add: toordinal_def ymd2ord_def days_before_month_def days_in_month_def
            nth_DBM nth_DIM)
    next
      case e4: False
      with e have e3: "e \<le> 3" by simp
      let ?leap = "e = 3 \<and> (c \<noteq> 24 \<or> b = 3)"
      let ?y = "400 * a + 100 * b + 4 * c + e + 1"
      obtain m dd where md: "md_of ?leap r = (m, dd)" by (cases "md_of ?leap r")
      have "r \<le> (if ?leap then 365 else 364)" using bounds by simp
      from md_of_correct [OF bounds(7) this] md
      have m: "1 \<le> m" "m \<le> 12" and dd: "1 \<le> dd"
        "dd \<le> (if m = 2 \<and> ?leap then 29 else DAYS_IN_MONTH ! nat m)"
        and sum: "DAYS_BEFORE_MONTH ! nat m + (if m > 2 \<and> ?leap then 1 else 0) + dd = r + 1"
        by simp_all
      have leap: "is_leap ?y \<longleftrightarrow> ?leap"
        using e(1) e3 c b(1) b3 by (rule is_leap_decomp)
      have dby: "days_before_year ?y = 146097 * a + 36524 * b + 1461 * c + 365 * e"
        using e(1) e3 c b(1) b3 by (rule days_before_year_decomp)
      have n: "n = 146097 * a + 36524 * b + 1461 * c + 365 * e + r + 1" using eqs by linarith
      from b4 e4 md have o: "ord2ymd n = Date ?y m dd"
        unfolding od by simp
      have y1: "1 \<le> ?y" using a0 b c e by simp
      show ?thesis
        unfolding o using m dd sum leap dby n y1
        by (simp add: toordinal_def ymd2ord_def days_before_month_def days_in_month_def)
    qed
  qed
qed

lemma div_succ:
  assumes "0 < (k::int)"
  shows "(p + 1) div k = p div k + (if (p + 1) mod k = 0 then 1 else 0)"
proof -
  define q where "q = p div k"
  define r where "r = p mod k"
  have p: "p = k * q + r" and r: "0 \<le> r" "r < k"
    using assms by (simp_all add: q_def r_def)
  show ?thesis
  proof (cases "r + 1 = k")
    case True
    then have "p + 1 = k * (q + 1)" using p by (simp add: algebra_simps)
    then show ?thesis using assms by (simp add: q_def [symmetric])
  next
    case False
    with r have r1: "r + 1 < k" by simp
    have e: "p + 1 = k * q + (r + 1)" using p by simp
    from e have "(p + 1) div k = q" by (rule int_div_pos_eq) (use r r1 in simp_all)
    moreover from e have "(p + 1) mod k = r + 1" by (rule int_mod_pos_eq) (use r r1 in simp_all)
    ultimately show ?thesis using r by (simp add: q_def [symmetric])
  qed
qed

lemma days_before_year_step:
  "days_before_year (y + 1) = days_before_year y + (if is_leap y then 366 else 365)"
proof -
  have d4: "y div 4 = (y - 1) div 4 + (if y mod 4 = 0 then 1 else 0)"
    using div_succ [of 4 "y - 1"] by simp
  have d100: "y div 100 = (y - 1) div 100 + (if y mod 100 = 0 then 1 else 0)"
    using div_succ [of 100 "y - 1"] by simp
  have d400: "y div 400 = (y - 1) div 400 + (if y mod 400 = 0 then 1 else 0)"
    using div_succ [of 400 "y - 1"] by simp
  have i1: "y mod 4 = 0" if "y mod 100 = 0"
  proof -
    from that have "100 dvd y" by (simp add: mod_eq_0_iff_dvd)
    moreover have "(4::int) dvd 100" by simp
    ultimately have "4 dvd y" by (rule dvd_trans [rotated])
    then show ?thesis by (simp add: mod_eq_0_iff_dvd)
  qed
  have i2: "y mod 100 = 0" if "y mod 400 = 0"
  proof -
    from that have "400 dvd y" by (simp add: mod_eq_0_iff_dvd)
    moreover have "(100::int) dvd 400" by simp
    ultimately have "100 dvd y" by (rule dvd_trans [rotated])
    then show ?thesis by (simp add: mod_eq_0_iff_dvd)
  qed
  have l: "days_before_year (y + 1) = y * 365 + y div 4 - y div 100 + y div 400"
    by (simp add: days_before_year_def)
  have r: "days_before_year y
      = (y - 1) * 365 + (y - 1) div 4 - (y - 1) div 100 + (y - 1) div 400"
    by (simp add: days_before_year_def Let_def)
  have s: "y * 365 = (y - 1) * 365 + 365" by simp
  show ?thesis
  proof (cases "y mod 4 = 0")
    case 4: True
    show ?thesis
    proof (cases "y mod 100 = 0")
      case 100: True
      show ?thesis
      proof (cases "y mod 400 = 0")
        case True
        with 4 100 show ?thesis unfolding l r d4 d100 d400 is_leap_def s by simp
      next
        case False
        with 4 100 show ?thesis unfolding l r d4 d100 d400 is_leap_def s by simp
      qed
    next
      case False
      with i2 have "y mod 400 \<noteq> 0" by auto
      with 4 False show ?thesis unfolding l r d4 d100 d400 is_leap_def s by simp
    qed
  next
    case False
    with i1 have n100: "y mod 100 \<noteq> 0" by auto
    with i2 have "y mod 400 \<noteq> 0" by auto
    with False n100 show ?thesis unfolding l r d4 d100 d400 is_leap_def s by simp
  qed
qed

lemma days_before_year_mono:
  assumes "y \<le> y'"
  shows "days_before_year y + 365 * (y' - y) \<le> days_before_year y'"
  using assms
proof (induction y' rule: int_ge_induct)
  case base
  show ?case by simp
next
  case (step i)
  then show ?case by (simp add: days_before_year_step)
qed

lemma days_before_month_next:
  assumes "1 \<le> m" and "m \<le> 11"
  shows "days_before_month y (m + 1) = days_before_month y m + days_in_month y m"
proof -
  from assms have "1 \<le> m" "m \<le> 12" by simp_all
  then show ?thesis
    by (cases rule: month_cases)
      (use assms in \<open>simp_all add: days_before_month_def days_in_month_def nth_DBM nth_DIM\<close>)
qed

lemma days_in_month_pos:
  assumes "1 \<le> m" and "m \<le> 12"
  shows "28 \<le> days_in_month y m"
  using assms
  by (cases rule: month_cases) (simp_all add: days_in_month_def nth_DIM)

lemma days_before_month_mono:
  assumes "1 \<le> m" and "m < m'" and "m' \<le> 12"
  shows "days_before_month y m + days_in_month y m \<le> days_before_month y m'"
proof -
  from assms(2) have "m + 1 \<le> m'" by simp
  then show ?thesis using assms(1,3)
  proof (induction m' rule: int_ge_induct)
    case base
    then show ?case by (simp add: days_before_month_next)
  next
    case (step i)
    then have "days_before_month y (i + 1) = days_before_month y i + days_in_month y i"
      by (intro days_before_month_next) simp_all
    moreover have "28 \<le> days_in_month y i" using step by (intro days_in_month_pos) simp_all
    ultimately show ?case using step by simp
  qed
qed

lemma days_before_month_12:
  "days_before_month y 12 + days_in_month y 12 = (if is_leap y then 366 else 365)"
  by (simp add: days_before_month_def days_in_month_def nth_DBM nth_DIM)

lemma day_of_year_bounds:
  assumes "valid_date d"
  shows "1 \<le> days_before_month (year d) (month d) + day d"
    and "days_before_month (year d) (month d) + day d \<le> (if is_leap (year d) then 366 else 365)"
proof -
  from assms have m: "1 \<le> month d" "month d \<le> 12" and dd: "1 \<le> day d"
    "day d \<le> days_in_month (year d) (month d)"
    by (simp_all add: valid_date_def)
  have "0 \<le> days_before_month (year d) (month d)"
    using m by (cases rule: month_cases) (simp_all add: days_before_month_def nth_DBM)
  with dd show "1 \<le> days_before_month (year d) (month d) + day d" by simp
  show "days_before_month (year d) (month d) + day d \<le> (if is_leap (year d) then 366 else 365)"
  proof (cases "month d = 12")
    case True
    with dd days_before_month_12 [of "year d"] show ?thesis by simp
  next
    case False
    with m have "month d < 12" by simp
    from days_before_month_mono [OF m(1) this, of "year d"] dd
      days_before_month_12 [of "year d"] days_in_month_pos [of 12 "year d"]
    show ?thesis by (simp split: if_splits)
  qed
qed

lemma toordinal_mono:
  assumes "valid_date a" and "valid_date b" and "date_less a b"
  shows "toordinal a < toordinal b"
proof -
  from assms(3) consider (y) "year a < year b"
    | (m) "year a = year b" "month a < month b"
    | (d) "year a = year b" "month a = month b" "day a < day b"
    by (auto simp: date_less_def)
  then show ?thesis
  proof cases
    case y
    have "toordinal a \<le> days_before_year (year a + 1)"
      using day_of_year_bounds(2) [OF assms(1)]
      by (simp add: toordinal_def ymd2ord_def days_before_year_step)
    also have "\<dots> \<le> days_before_year (year b)"
      using days_before_year_mono [of "year a + 1" "year b"] y by simp
    also have "\<dots> < toordinal b"
      using day_of_year_bounds(1) [OF assms(2)] by (simp add: toordinal_def ymd2ord_def)
    finally show ?thesis .
  next
    case m
    from assms(1,2) have "1 \<le> month a" "month b \<le> 12" "day a \<le> days_in_month (year a) (month a)"
      "1 \<le> day b"
      by (simp_all add: valid_date_def)
    with days_before_month_mono [of "month a" "month b" "year a"] m
    show ?thesis by (simp add: toordinal_def ymd2ord_def)
  next
    case d
    then show ?thesis by (simp add: toordinal_def ymd2ord_def)
  qed
qed

lemma date_less_total: "date_less a b \<or> a = b \<or> date_less b a"
  by (cases a; cases b) (auto simp: date_less_def)

lemma toordinal_less_iff:
  assumes "valid_date a" and "valid_date b"
  shows "toordinal a < toordinal b \<longleftrightarrow> date_less a b"
  using toordinal_mono [OF assms] toordinal_mono [OF assms(2,1)] date_less_total [of a b]
  by auto

lemma toordinal_inj:
  assumes "valid_date a" and "valid_date b" and "toordinal a = toordinal b"
  shows "a = b"
  using toordinal_mono [OF assms(1,2)] toordinal_mono [OF assms(2,1)] date_less_total [of a b] assms(3)
  by auto

lemma toordinal_bounds:
  assumes "valid_date d"
  shows "1 \<le> toordinal d" and "toordinal d \<le> MAXORDINAL"
proof -
  have "days_before_year 1 = 0" by (simp add: days_before_year_def)
  with days_before_year_mono [of 1 "year d"] assms have "0 \<le> days_before_year (year d)"
    by (simp add: valid_date_def)
  with day_of_year_bounds(1) [OF assms] show "1 \<le> toordinal d"
    by (simp add: toordinal_def ymd2ord_def)
  have "toordinal d \<le> days_before_year (year d + 1)"
    using day_of_year_bounds(2) [OF assms]
    by (simp add: toordinal_def ymd2ord_def days_before_year_step)
  also have "\<dots> \<le> days_before_year 10000"
    using days_before_year_mono [of "year d + 1" 10000] assms by (simp add: valid_date_def)
  also have "\<dots> = MAXORDINAL" by (simp add: days_before_year_def MAXORDINAL_def)
  finally show "toordinal d \<le> MAXORDINAL" .
qed

lemma ord2ymd_valid:
  assumes "1 \<le> n" and "n \<le> MAXORDINAL"
  shows "valid_date (ord2ymd n)" and "toordinal (ord2ymd n) = n"
proof -
  let ?d = "ord2ymd n"
  from ord2ymd_correct [OF assms(1)] have t: "toordinal ?d = n" and y: "1 \<le> year ?d"
    and rest: "1 \<le> month ?d" "month ?d \<le> 12" "1 \<le> day ?d"
      "day ?d \<le> days_in_month (year ?d) (month ?d)"
    by simp_all
  show "toordinal ?d = n" by (rule t)
  have "year ?d \<le> 9999"
  proof (rule ccontr)
    assume "\<not> year ?d \<le> 9999"
    then have "10000 \<le> year ?d" by simp
    from days_before_year_mono [OF this] have "days_before_year 10000 \<le> days_before_year (year ?d)"
      using \<open>10000 \<le> year ?d\<close> by simp
    moreover have "days_before_year 10000 = MAXORDINAL"
      by (simp add: days_before_year_def MAXORDINAL_def)
    moreover have "0 \<le> days_before_month (year ?d) (month ?d)"
      using rest(1,2) by (cases rule: month_cases) (simp_all add: days_before_month_def nth_DBM)
    ultimately have "MAXORDINAL < toordinal ?d"
      using rest(3) by (simp add: toordinal_def ymd2ord_def)
    with t assms(2) show False by simp
  qed
  with y rest show "valid_date ?d" by (simp add: valid_date_def)
qed

lemma ord2ymd_toordinal:
  assumes "valid_date d"
  shows "ord2ymd (toordinal d) = d"
proof -
  from toordinal_bounds [OF assms] have "valid_date (ord2ymd (toordinal d))"
    and "toordinal (ord2ymd (toordinal d)) = toordinal d"
    by (rule ord2ymd_valid)+
  then show ?thesis using assms by (intro toordinal_inj)
qed

section \<open>Facts about formatting and parsing\<close>

lemma of_char_digit: "n < 10 \<Longrightarrow> of_char (digit_char n) = 48 + n"
  by (simp add: digit_char_def)

lemma digit_char_less: "a < 10 \<Longrightarrow> b < 10 \<Longrightarrow> digit_char a < digit_char b \<longleftrightarrow> a < b"
  by (simp add: less_char_def of_char_digit)

lemma digit_char_le: "a < 10 \<Longrightarrow> b < 10 \<Longrightarrow> digit_char a \<le> digit_char b \<longleftrightarrow> a \<le> b"
  by (simp add: less_eq_char_def of_char_digit)

lemma digit_char_eq: "a < 10 \<Longrightarrow> b < 10 \<Longrightarrow> digit_char a = digit_char b \<longleftrightarrow> a = b"
proof
  assume "a < 10" "b < 10" "digit_char a = digit_char b"
  then have "(of_char (digit_char a) :: nat) = of_char (digit_char b)" by simp
  with \<open>a < 10\<close> \<open>b < 10\<close> show "a = b" by (simp add: of_char_digit)
qed simp

lemma digit_consts:
  "CHR ''0'' = digit_char 0" "CHR ''1'' = digit_char 1" "CHR ''2'' = digit_char 2"
  "CHR ''3'' = digit_char 3" "CHR ''9'' = digit_char 9"
  by code_simp+

lemma is_digit_digit_char: "n < 10 \<Longrightarrow> is_digit (digit_char n)"
  by (simp add: is_digit_def digit_consts digit_char_le)

lemma digit_val_digit_char: "n < 10 \<Longrightarrow> digit_val (digit_char n) = int n"
  by (simp add: digit_val_def of_char_digit)

lemma digit_char_not_hyphen: "n < 10 \<Longrightarrow> digit_char n \<noteq> CHR ''-''"
proof
  assume "n < 10" "digit_char n = CHR ''-''"
  then have "(of_char (digit_char n) :: nat) = of_char (CHR ''-'')" by simp
  with \<open>n < 10\<close> show False by (simp add: of_char_digit)
qed

lemma digit_char_not_space: "n < 10 \<Longrightarrow> digit_char n \<noteq> CHR '' ''"
proof
  assume "n < 10" "digit_char n = CHR '' ''"
  then have "(of_char (digit_char n) :: nat) = of_char (CHR '' '')" by simp
  with \<open>n < 10\<close> show False by (simp add: of_char_digit)
qed

lemma lex_append:
  fixes u u' v v' :: string
  assumes "length u = length u'"
  shows "u @ v < u' @ v' \<longleftrightarrow> u < u' \<or> (u = u' \<and> v < v')"
  using assms by (induction u u' rule: list_induct2) auto

lemma lex_div_mod:
  fixes x y k :: nat
  assumes "0 < k"
  shows "x < y \<longleftrightarrow> x div k < y div k \<or> (x div k = y div k \<and> x mod k < y mod k)"
proof -
  have x: "x = k * (x div k) + x mod k" and y: "y = k * (y div k) + y mod k" by simp_all
  have mx: "x mod k < k" and my: "y mod k < k" using assms by simp_all
  show ?thesis
  proof
    assume "x < y"
    then have "x div k \<le> y div k" by (simp add: div_le_mono)
    then show "x div k < y div k \<or> (x div k = y div k \<and> x mod k < y mod k)"
    proof (cases "x div k = y div k")
      case True
      with \<open>x < y\<close> x y have "x mod k < y mod k" by (metis nat_add_left_cancel_less)
      with True show ?thesis by simp
    next
      case False
      with \<open>x div k \<le> y div k\<close> show ?thesis by simp
    qed
  next
    assume "x div k < y div k \<or> (x div k = y div k \<and> x mod k < y mod k)"
    then show "x < y"
    proof
      assume "x div k < y div k"
      then have "x div k + 1 \<le> y div k" by simp
      then have "k * (x div k + 1) \<le> k * (y div k)" by (rule mult_le_mono2)
      moreover have "x < k * (x div k + 1)"
      proof -
        have "x = k * (x div k) + x mod k" by simp
        also have "\<dots> < k * (x div k) + k" by (rule add_strict_left_mono [OF mx])
        also have "\<dots> = k * (x div k + 1)" by simp
        finally show ?thesis .
      qed
      moreover have "k * (y div k) \<le> y" by simp
      ultimately show ?thesis by linarith
    next
      assume "x div k = y div k \<and> x mod k < y mod k"
      with x y show ?thesis by (metis nat_add_left_cancel_less)
    qed
  qed
qed

lemma list2_less:
  fixes a b c d :: char
  shows "[a, b] < [c, d] \<longleftrightarrow> a < c \<or> (a = c \<and> b < d)"
  by simp

lemma pad2_less:
  assumes "0 \<le> a" "a < 100" "0 \<le> b" "b < 100"
  shows "pad2 a < pad2 b \<longleftrightarrow> a < b"
proof -
  define x where "x = nat a"
  define y where "y = nat b"
  have xy: "x < 100" "y < 100" "a < b \<longleftrightarrow> x < y"
    using assms unfolding x_def y_def by linarith+
  have d: "x div 10 < 10" "y div 10 < 10" "x mod 10 < 10" "y mod 10 < 10" using xy by simp_all
  have "pad2 a < pad2 b \<longleftrightarrow>
      digit_char (x div 10) < digit_char (y div 10)
      \<or> (digit_char (x div 10) = digit_char (y div 10)
          \<and> digit_char (x mod 10) < digit_char (y mod 10))"
    unfolding pad2_def x_def y_def by (rule list2_less)
  also have "\<dots> \<longleftrightarrow> x div 10 < y div 10 \<or> (x div 10 = y div 10 \<and> x mod 10 < y mod 10)"
    by (simp only: digit_char_less [OF d(1,2)] digit_char_less [OF d(3,4)]
        digit_char_eq [OF d(1,2)])
  also have "\<dots> \<longleftrightarrow> x < y" by (rule lex_div_mod [symmetric]) simp
  finally show ?thesis by (simp only: xy(3))
qed

lemma digits4:
  fixes x :: nat
  assumes "x < 10000"
  shows "x div 1000 mod 10 = x div 100 div 10" "x div 100 mod 10 = x div 100 mod 10"
    "x div 10 mod 10 = x mod 100 div 10" "x mod 10 = x mod 100 mod 10"
proof -
  have "x div 1000 = x div 100 div 10" by (simp add: div_mult2_eq [symmetric])
  moreover have "x div 1000 < 10" using assms by simp
  ultimately show "x div 1000 mod 10 = x div 100 div 10" by simp
  show "x div 100 mod 10 = x div 100 mod 10" ..
  show "x div 10 mod 10 = x mod 100 div 10"
    using mod_mult2_eq [of x 10 10] by simp
  show "x mod 10 = x mod 100 mod 10"
    by (simp add: mod_mod_cancel)
qed

lemma eq_div_mod:
  fixes x y k :: nat
  shows "x = y \<longleftrightarrow> x div k = y div k \<and> x mod k = y mod k"
  by (metis div_mult_mod_eq)

lemma pad2_eq:
  assumes "0 \<le> a" "a < 100" "0 \<le> b" "b < 100"
  shows "pad2 a = pad2 b \<longleftrightarrow> a = b"
proof -
  define x where "x = nat a"
  define y where "y = nat b"
  have xy: "x < 100" "y < 100" "a = b \<longleftrightarrow> x = y"
    using assms unfolding x_def y_def by linarith+
  have d: "x div 10 < 10" "y div 10 < 10" "x mod 10 < 10" "y mod 10 < 10" using xy by simp_all
  have "pad2 a = pad2 b \<longleftrightarrow>
      digit_char (x div 10) = digit_char (y div 10)
      \<and> digit_char (x mod 10) = digit_char (y mod 10)"
    unfolding pad2_def x_def y_def by simp
  also have "\<dots> \<longleftrightarrow> x div 10 = y div 10 \<and> x mod 10 = y mod 10"
    by (simp only: digit_char_eq [OF d(1,2)] digit_char_eq [OF d(3,4)])
  also have "\<dots> \<longleftrightarrow> x = y" by (rule eq_div_mod [symmetric])
  finally show ?thesis by (simp only: xy(3))
qed

lemma list4_less:
  fixes a b c d a' b' c' d' :: char
  shows "[a, b, c, d] < [a', b', c', d'] \<longleftrightarrow>
     a < a' \<or> (a = a' \<and> (b < b' \<or> (b = b' \<and> (c < c' \<or> (c = c' \<and> d < d')))))"
  by simp

lemma pad4_digits:
  assumes "0 \<le> a" "a < 10000"
  shows "pad4 a = [digit_char (nat a div 100 div 10), digit_char (nat a div 100 mod 10),
                   digit_char (nat a mod 100 div 10), digit_char (nat a mod 100 mod 10)]"
proof -
  from assms have "nat a < 10000" by linarith
  from digits4 [OF this] show ?thesis unfolding pad4_def by (simp only:)
qed

lemma pad4_less:
  assumes "0 \<le> a" "a < 10000" "0 \<le> b" "b < 10000"
  shows "pad4 a < pad4 b \<longleftrightarrow> a < b"
proof -
  define h where "h = nat a div 100"
  define l where "l = nat a mod 100"
  define h' where "h' = nat b div 100"
  define l' where "l' = nat b mod 100"
  have ab: "a < b \<longleftrightarrow> nat a < nat b" using assms by linarith
  have hl: "h < 100" "h' < 100" "l < 100" "l' < 100"
    using assms unfolding h_def h'_def l_def l'_def by simp_all
  have d: "h div 10 < 10" "h' div 10 < 10" "h mod 10 < 10" "h' mod 10 < 10"
    "l div 10 < 10" "l' div 10 < 10" "l mod 10 < 10" "l' mod 10 < 10"
    using hl by simp_all
  have "pad4 a < pad4 b \<longleftrightarrow>
      h div 10 < h' div 10 \<or> (h div 10 = h' div 10 \<and> (h mod 10 < h' mod 10
        \<or> (h mod 10 = h' mod 10 \<and> (l div 10 < l' div 10
        \<or> (l div 10 = l' div 10 \<and> l mod 10 < l' mod 10)))))"
    unfolding pad4_digits [OF assms(1,2)] pad4_digits [OF assms(3,4)] list4_less
      h_def [symmetric] l_def [symmetric] h'_def [symmetric] l'_def [symmetric]
    by (simp only: digit_char_less [OF d(1,2)] digit_char_less [OF d(3,4)]
        digit_char_less [OF d(5,6)] digit_char_less [OF d(7,8)]
        digit_char_eq [OF d(1,2)] digit_char_eq [OF d(3,4)] digit_char_eq [OF d(5,6)])
  also have "\<dots> \<longleftrightarrow> h < h' \<or> (h = h' \<and> l < l')"
    using lex_div_mod [of 10 h h'] lex_div_mod [of 10 l l'] eq_div_mod [of h h' 10] by auto
  also have "\<dots> \<longleftrightarrow> nat a < nat b"
    unfolding h_def l_def h'_def l'_def by (rule lex_div_mod [symmetric]) simp
  finally show ?thesis by (simp only: ab)
qed

lemma list4_eq:
  fixes a b c d a' b' c' d' :: char
  shows "[a, b, c, d] = [a', b', c', d'] \<longleftrightarrow> a = a' \<and> b = b' \<and> c = c' \<and> d = d'"
  by simp

lemma pad4_eq:
  assumes "0 \<le> a" "a < 10000" "0 \<le> b" "b < 10000"
  shows "pad4 a = pad4 b \<longleftrightarrow> a = b"
proof -
  define h where "h = nat a div 100"
  define l where "l = nat a mod 100"
  define h' where "h' = nat b div 100"
  define l' where "l' = nat b mod 100"
  have ab: "a = b \<longleftrightarrow> nat a = nat b" using assms by linarith
  have hl: "h < 100" "h' < 100" "l < 100" "l' < 100"
    using assms unfolding h_def h'_def l_def l'_def by simp_all
  have d: "h div 10 < 10" "h' div 10 < 10" "h mod 10 < 10" "h' mod 10 < 10"
    "l div 10 < 10" "l' div 10 < 10" "l mod 10 < 10" "l' mod 10 < 10"
    using hl by simp_all
  have "pad4 a = pad4 b \<longleftrightarrow>
      h div 10 = h' div 10 \<and> h mod 10 = h' mod 10 \<and> l div 10 = l' div 10
        \<and> l mod 10 = l' mod 10"
    unfolding pad4_digits [OF assms(1,2)] pad4_digits [OF assms(3,4)] list4_eq
      h_def [symmetric] l_def [symmetric] h'_def [symmetric] l'_def [symmetric]
    by (simp only: digit_char_eq [OF d(1,2)] digit_char_eq [OF d(3,4)]
        digit_char_eq [OF d(5,6)] digit_char_eq [OF d(7,8)])
  also have "\<dots> \<longleftrightarrow> h = h' \<and> l = l'"
    using eq_div_mod [of h h' 10] eq_div_mod [of l l' 10] by auto
  also have "\<dots> \<longleftrightarrow> nat a = nat b"
    unfolding h_def l_def h'_def l'_def by (rule eq_div_mod [symmetric])
  finally show ?thesis by (simp only: ab)
qed

lemma char_consts:
  "CHR ''0'' = digit_char 0" "CHR ''1'' = digit_char 1" "CHR ''2'' = digit_char 2"
  "CHR ''3'' = digit_char 3" "CHR ''9'' = digit_char 9"
  by code_simp+

lemma recompose:
  fixes x :: nat
  assumes "x < 10000"
  shows "x = 1000 * (x div 1000 mod 10) + 100 * (x div 100 mod 10) + 10 * (x div 10 mod 10) + x mod 10"
proof -
  have h: "x div 1000 mod 10 = x div 100 div 10" "x div 10 mod 10 = x mod 100 div 10"
    "x mod 10 = x mod 100 mod 10"
    using digits4 [OF assms] by simp_all
  define H where "H = x div 100"
  define L where "L = x mod 100"
  have 1: "x = 100 * H + L" by (simp add: H_def L_def)
  have 2: "H = 10 * (H div 10) + H mod 10" by simp
  have 3: "L = 10 * (L div 10) + L mod 10" by simp
  from 1 2 3 have "x = 1000 * (H div 10) + 100 * (H mod 10) + 10 * (L div 10) + L mod 10"
    by linarith
  then show ?thesis
    unfolding h H_def L_def .
qed

lemma match_Y_digits:
  assumes "a < 10" "b < 10" "c < 10" "d < 10"
  shows "match_Y [digit_char a, digit_char b, digit_char c, digit_char d]
     = Some (int (1000 * a + 100 * b + 10 * c + d))"
  using assms by (simp add: match_Y_def is_digit_digit_char digit_val_digit_char)

lemma match_Y_pad4:
  assumes "0 \<le> y" "y < 10000"
  shows "match_Y (pad4 y) = Some y"
proof -
  define x where "x = nat y"
  have x: "x < 10000" "int x = y" using assms unfolding x_def by linarith+
  have "match_Y (pad4 y) = Some (int (1000 * (x div 1000 mod 10) + 100 * (x div 100 mod 10)
      + 10 * (x div 10 mod 10) + x mod 10))"
    unfolding pad4_def x_def [symmetric] by (rule match_Y_digits) simp_all
  also have "\<dots> = Some (int x)"
    using recompose [OF x(1)] by (simp only:)
  finally show ?thesis by (simp only: x(2))
qed

lemma match_m_digits:
  assumes "a < 10" "b < 10"
  shows "match_m [digit_char a, digit_char b]
     = (if a = 1 \<and> b \<le> 2 then Some (10 + int b)
        else if a = 0 \<and> b \<noteq> 0 then Some (int b) else None)"
  using assms
  by (simp add: match_m_def char_consts digit_char_eq digit_char_le is_digit_digit_char
      digit_val_digit_char)

lemma match_d_digits:
  assumes "a < 10" "b < 10"
  shows "match_d [digit_char a, digit_char b]
     = (if a = 3 \<and> b \<le> 1 then Some (30 + int b)
        else if 1 \<le> a \<and> a \<le> 2 then Some (10 * int a + int b)
        else if a = 0 \<and> b \<noteq> 0 then Some (int b) else None)"
  using assms
  by (simp add: match_d_def char_consts digit_char_eq digit_char_le is_digit_digit_char
      digit_val_digit_char digit_char_not_space)

lemma match_m_pad2:
  assumes "1 \<le> m" "m \<le> 12"
  shows "match_m (pad2 m) = Some m"
proof -
  define p where "p = nat m div 10"
  define q where "q = nat m mod 10"
  have pq: "nat m = 10 * p + q" "q < 10" by (simp_all add: p_def q_def)
  with assms have p: "p < 10" and m: "m = 10 * int p + int q" by linarith+
  have "match_m (pad2 m) = (if p = 1 \<and> q \<le> 2 then Some (10 + int q)
        else if p = 0 \<and> q \<noteq> 0 then Some (int q) else None)"
    unfolding pad2_def p_def [symmetric] q_def [symmetric] using p pq(2) by (rule match_m_digits)
  also have "\<dots> = Some m"
  proof -
    from assms m pq(2) have "(p = 1 \<and> q \<le> 2) \<or> (p = 0 \<and> q \<noteq> 0)" by linarith
    then show ?thesis using m by auto
  qed
  finally show ?thesis .
qed

lemma match_d_pad2:
  assumes "1 \<le> d" "d \<le> 31"
  shows "match_d (pad2 d) = Some d"
proof -
  define p where "p = nat d div 10"
  define q where "q = nat d mod 10"
  have pq: "nat d = 10 * p + q" "q < 10" by (simp_all add: p_def q_def)
  with assms have p: "p < 10" and d: "d = 10 * int p + int q" by linarith+
  have "match_d (pad2 d) = (if p = 3 \<and> q \<le> 1 then Some (30 + int q)
        else if 1 \<le> p \<and> p \<le> 2 then Some (10 * int p + int q)
        else if p = 0 \<and> q \<noteq> 0 then Some (int q) else None)"
    unfolding pad2_def p_def [symmetric] q_def [symmetric] using p pq(2) by (rule match_d_digits)
  also have "\<dots> = Some d"
  proof -
    from assms d pq(2) have "(p = 3 \<and> q \<le> 1) \<or> (1 \<le> p \<and> p \<le> 2) \<or> (p = 0 \<and> q \<noteq> 0)"
      by linarith
    then show ?thesis using d by auto
  qed
  finally show ?thesis .
qed

lemma days_in_month_le:
  assumes "1 \<le> m" "m \<le> 12"
  shows "days_in_month y m \<le> 31"
  using assms by (cases rule: month_cases) (simp_all add: days_in_month_def nth_DIM)

lemma pad2_no_hyphen:
  assumes "0 \<le> n" "n < 100"
  shows "takeWhile (\<lambda>x. x \<noteq> CHR ''-'') (pad2 n @ CHR ''-'' # rest) = pad2 n"
    and "dropWhile (\<lambda>x. x \<noteq> CHR ''-'') (pad2 n @ CHR ''-'' # rest) = CHR ''-'' # rest"
proof -
  have "nat n div 10 < 10" "nat n mod 10 < 10" using assms by simp_all
  then have h: "digit_char (nat n div 10) \<noteq> CHR ''-''" "digit_char (nat n mod 10) \<noteq> CHR ''-''"
    by (simp_all add: digit_char_not_hyphen)
  from h show "takeWhile (\<lambda>x. x \<noteq> CHR ''-'') (pad2 n @ CHR ''-'' # rest) = pad2 n"
    by (simp add: pad2_def)
  from h show "dropWhile (\<lambda>x. x \<noteq> CHR ''-'') (pad2 n @ CHR ''-'' # rest) = CHR ''-'' # rest"
    by (simp add: pad2_def)
qed

lemma length_pad [simp]: "length (pad4 y) = 4" "length (pad2 n) = 2"
  by (simp_all add: pad4_def pad2_def)

lemma strptime_isoformat:
  assumes "valid_date d"
  shows "strptime (isoformat d) = Some d"
proof -
  from assms have y: "0 \<le> year d" "year d < 10000" and m: "1 \<le> month d" "month d \<le> 12"
    and dd: "1 \<le> day d" "day d \<le> days_in_month (year d) (month d)"
    by (simp_all add: valid_date_def)
  from dd days_in_month_le [OF m, of "year d"] have d31: "day d \<le> 31" by simp
  have iso: "isoformat d = pad4 (year d) @ CHR ''-'' # (pad2 (month d) @ CHR ''-'' # pad2 (day d))"
    by (simp add: isoformat_def)
  have t: "take 4 (isoformat d) = pad4 (year d)"
    and dr: "drop 4 (isoformat d) = CHR ''-'' # (pad2 (month d) @ CHR ''-'' # pad2 (day d))"
    unfolding iso by simp_all
  have tw: "takeWhile (\<lambda>x. x \<noteq> CHR ''-'') (pad2 (month d) @ CHR ''-'' # pad2 (day d)) = pad2 (month d)"
    and dw: "dropWhile (\<lambda>x. x \<noteq> CHR ''-'') (pad2 (month d) @ CHR ''-'' # pad2 (day d))
       = CHR ''-'' # pad2 (day d)"
    using m by (simp_all add: pad2_no_hyphen)
  have "Date (year d) (month d) (day d) = d" by simp
  with assms show ?thesis
    unfolding strptime_def t dr
    by (simp add: match_Y_pad4 [OF y] tw dw match_m_pad2 [OF m] match_d_pad2 [OF dd(1) d31])
qed

lemma strptime_valid: "strptime s = Some d \<Longrightarrow> valid_date d"
  unfolding strptime_def
  by (auto split: option.splits list.splits if_splits)

lemma iso_key_iff: "iso_key s \<longleftrightarrow> (\<exists>d. valid_date d \<and> s = isoformat d)"
proof
  assume "iso_key s"
  then obtain d where "strptime s = Some d" "isoformat d = s"
    by (auto simp: iso_key_def split: option.splits)
  with strptime_valid show "\<exists>d. valid_date d \<and> s = isoformat d" by blast
next
  assume "\<exists>d. valid_date d \<and> s = isoformat d"
  then show "iso_key s" by (auto simp: iso_key_def strptime_isoformat)
qed

lemma cons_hyphen_less:
  fixes u v :: string
  shows "CHR ''-'' # u < CHR ''-'' # v \<longleftrightarrow> u < v"
  by simp

lemma isoformat_less:
  assumes "valid_date a" and "valid_date b"
  shows "isoformat a < isoformat b \<longleftrightarrow> date_less a b"
proof -
  from assms(1) have ya: "0 \<le> year a" "year a < 10000" and ma: "0 \<le> month a" "month a < 100"
    and da: "0 \<le> day a"
    by (simp_all add: valid_date_def)
  from assms(1) have "1 \<le> month a" "month a \<le> 12" "day a \<le> days_in_month (year a) (month a)"
    by (simp_all add: valid_date_def)
  with days_in_month_le [of "month a" "year a"] have da': "day a < 100" by simp
  from assms(2) have yb: "0 \<le> year b" "year b < 10000" and mb: "0 \<le> month b" "month b < 100"
    and db: "0 \<le> day b"
    by (simp_all add: valid_date_def)
  from assms(2) have "1 \<le> month b" "month b \<le> 12" "day b \<le> days_in_month (year b) (month b)"
    by (simp_all add: valid_date_def)
  with days_in_month_le [of "month b" "year b"] have db': "day b < 100" by simp
  have ia: "isoformat a = pad4 (year a) @ CHR ''-'' # (pad2 (month a) @ CHR ''-'' # pad2 (day a))"
    and ib: "isoformat b = pad4 (year b) @ CHR ''-'' # (pad2 (month b) @ CHR ''-'' # pad2 (day b))"
    by (simp_all add: isoformat_def)
  have "isoformat a < isoformat b \<longleftrightarrow>
      pad4 (year a) < pad4 (year b) \<or> (pad4 (year a) = pad4 (year b) \<and>
        (pad2 (month a) < pad2 (month b) \<or> (pad2 (month a) = pad2 (month b) \<and>
          pad2 (day a) < pad2 (day b))))"
    unfolding ia ib by (simp only: lex_append length_pad cons_hyphen_less)
  also have "\<dots> \<longleftrightarrow> date_less a b"
    unfolding pad4_less [OF ya yb] pad4_eq [OF ya yb] pad2_less [OF ma mb] pad2_eq [OF ma mb]
      pad2_less [OF da da' db db'] date_less_def ..
  finally show ?thesis .
qed

lemma isoformat_inj:
  assumes "valid_date a" and "valid_date b" and "isoformat a = isoformat b"
  shows "a = b"
proof -
  from isoformat_less [OF assms(1,2)] isoformat_less [OF assms(2,1)] assms(3)
  have "\<not> date_less a b" "\<not> date_less b a" by simp_all
  with date_less_total [of a b] show ?thesis by blast
qed

lemma decimal_digits:
  "n < 10 \<Longrightarrow> decimal n = [digit_char n]"
  "10 \<le> n \<Longrightarrow> n < 100 \<Longrightarrow> decimal n = [digit_char (n div 10), digit_char (n mod 10)]"
  "100 \<le> n \<Longrightarrow> n < 1000 \<Longrightarrow>
     decimal n = [digit_char (n div 10 div 10), digit_char (n div 10 mod 10), digit_char (n mod 10)]"
  "1000 \<le> n \<Longrightarrow> n < 10000 \<Longrightarrow>
     decimal n = [digit_char (n div 10 div 10 div 10), digit_char (n div 10 div 10 mod 10),
                  digit_char (n div 10 mod 10), digit_char (n mod 10)]"
proof -
  show 1: "decimal n = [digit_char n]" if "n < 10" for n
    using that by (subst decimal.simps) simp
  show 2: "decimal n = [digit_char (n div 10), digit_char (n mod 10)]"
    if "10 \<le> n" "n < 100" for n
  proof -
    from that have "n div 10 < 10" by simp
    from 1 [OF this] that show ?thesis by (subst decimal.simps) simp
  qed
  show 3: "decimal n = [digit_char (n div 10 div 10), digit_char (n div 10 mod 10),
      digit_char (n mod 10)]" if "100 \<le> n" "n < 1000" for n
  proof -
    from that have "10 \<le> n div 10" "n div 10 < 100" by simp_all
    from 2 [OF this] that show ?thesis by (subst decimal.simps) simp
  qed
  show "decimal n = [digit_char (n div 10 div 10 div 10), digit_char (n div 10 div 10 mod 10),
      digit_char (n div 10 mod 10), digit_char (n mod 10)]" if "1000 \<le> n" "n < 10000"
  proof -
    from that have "100 \<le> n div 10" "n div 10 < 1000" by simp_all
    from 3 [OF this] that show ?thesis by (subst decimal.simps) simp
  qed
qed

lemma decimal_length:
  assumes "n < 10000"
  shows "length (decimal n) = 4 \<longleftrightarrow> 1000 \<le> n"
proof -
  consider "n < 10" | "10 \<le> n" "n < 100" | "100 \<le> n" "n < 1000" | "1000 \<le> n" "n < 10000"
    using assms by linarith
  then show ?thesis
    by cases (simp_all add: decimal_digits)
qed

lemma decimal_pad4:
  assumes "1000 \<le> y" "y < 10000"
  shows "decimal (nat y) = pad4 y"
proof -
  define x where "x = nat y"
  have x: "1000 \<le> x" "x < 10000" using assms unfolding x_def by linarith+
  have "x div 10 div 10 div 10 = x div 1000" "x div 10 div 10 = x div 100"
    by (simp_all add: div_mult2_eq [symmetric])
  moreover have "x div 1000 mod 10 = x div 1000" using x by simp
  ultimately show ?thesis
    unfolding pad4_def x_def [symmetric] by (simp add: decimal_digits(4) [OF x])
qed

lemma strftime_isoformat:
  assumes "valid_date d" and "1000 \<le> year d"
  shows "strftime d = isoformat d"
proof -
  from assms(1) have "year d < 10000" by (simp add: valid_date_def)
  with assms(2) have "decimal (nat (year d)) = pad4 (year d)" by (rule decimal_pad4)
  then show ?thesis by (simp add: strftime_def isoformat_def)
qed

lemma strftime_eq_isoformat:
  assumes "valid_date d" and "valid_date d'" and "strftime d = isoformat d'"
  shows "d = d'"
proof -
  from assms(1) have "year d \<le> 9999" by (simp add: valid_date_def)
  then have y: "nat (year d) < 10000" by linarith
  have "length (strftime d) = length (decimal (nat (year d))) + 6"
    by (simp add: strftime_def)
  moreover have "length (isoformat d') = 10" by (simp add: isoformat_def)
  ultimately have "length (decimal (nat (year d))) = 4" using assms(3) by simp
  with decimal_length [OF y] have "1000 \<le> nat (year d)" by simp
  then have "1000 \<le> year d" by linarith
  with assms(1) have "strftime d = isoformat d" by (rule strftime_isoformat)
  with assms(3) have "isoformat d = isoformat d'" by simp
  with assms(1,2) show ?thesis by (rule isoformat_inj)
qed

section \<open>Facts about the streak computations\<close>

lemma ord_scan_ge: "mx \<le> ord_scan xs mx cur \<and> cur \<le> ord_scan xs mx cur"
proof (induction xs mx cur rule: ord_scan.induct)
  case (1 a b rest mx cur)
  show ?case
  proof (cases "b - a = 1")
    case True
    with 1 have "mx \<le> ord_scan (b # rest) mx (cur + 1)"
      and "cur + 1 \<le> ord_scan (b # rest) mx (cur + 1)" by simp_all
    with True show ?thesis by simp
  next
    case False
    with 1 have "max mx cur \<le> ord_scan (b # rest) (max mx cur) 1" by simp
    with False show ?thesis by simp
  qed
qed simp_all

lemma ord_scan_run:
  assumes "sorted_wrt (<) (x # xs)" and "1 \<le> cur" and "a \<le> b"
    and "{a..b} \<subseteq> {x - int cur + 1..x} \<union> set xs"
  shows "b - a + 1 \<le> int (ord_scan (x # xs) mx cur)"
  using assms
proof (induction xs arbitrary: x mx cur)
  case Nil
  then have "x - int cur + 1 \<le> a" "b \<le> x" by auto
  then have "b - a + 1 \<le> int cur" by simp
  also have "\<dots> \<le> int (max mx cur)" by simp
  finally show ?case by simp
next
  case (Cons y ys)
  from Cons.prems(1) have xy: "x < y" and gt: "\<forall>z \<in> set ys. y < z"
    and s: "sorted_wrt (<) (y # ys)"
    by simp_all
  show ?case
  proof (cases "y - x = 1")
    case True
    have "{a..b} \<subseteq> {y - int (cur + 1) + 1..y} \<union> set ys"
      using Cons.prems(4) True by auto
    from Cons.IH [OF s _ Cons.prems(3) this, of mx] True show ?thesis by simp
  next
    case False
    with xy have far: "x + 1 < y" by simp
    show ?thesis
    proof (cases "b \<le> x")
      case True
      have "x - int cur + 1 \<le> a"
      proof -
        from Cons.prems(3) have "a \<in> {a..b}" by simp
        with Cons.prems(4) have "a \<in> {x - int cur + 1..x} \<union> set (y # ys)" by blast
        moreover have "a \<notin> set (y # ys)" using True Cons.prems(3) xy gt by auto
        ultimately show ?thesis by simp
      qed
      with True have "b - a + 1 \<le> int cur" by simp
      also have "\<dots> \<le> int (max mx cur)" by simp
      also have "\<dots> \<le> int (ord_scan (y # ys) (max mx cur) 1)"
        using ord_scan_ge [of "max mx cur" "y # ys" 1] by simp
      finally show ?thesis using False by simp
    next
      case bx: False
      have notin: "x + 1 \<notin> {x - int cur + 1..x} \<union> set (y # ys)"
        using far gt by auto
      have "x + 1 < a"
      proof (rule ccontr)
        assume "\<not> x + 1 < a"
        with bx have "x + 1 \<in> {a..b}" by simp
        with Cons.prems(4) notin show False by auto
      qed
      then have "{a..b} \<subseteq> {y - int 1 + 1..y} \<union> set ys"
        using Cons.prems(4) by auto
      from Cons.IH [OF s _ Cons.prems(3) this, of "max mx cur"] False show ?thesis by simp
    qed
  qed
qed

lemma longest_streak_loop_ord:
  assumes "\<forall>k \<in> set ks. iso_key k"
  shows "longest_streak_loop ks mx cur = Inr (ord_scan (map key_ord ks) mx cur)"
  using assms
proof (induction ks mx cur rule: longest_streak_loop.induct)
  case (1 a b rest max_streak current_streak)
  from "1.prems" obtain da db where a: "strptime a = Some da" and b: "strptime b = Some db"
    by (auto simp: iso_key_def split: option.splits)
  from "1.prems" have rest: "\<forall>k \<in> set (b # rest). iso_key k" by simp
  have k: "key_ord a = toordinal da" "key_ord b = toordinal db"
    by (simp_all add: key_ord_def a b)
  show ?case
  proof (cases "days_between db da = 1")
    case True
    with "1.IH"(1) [OF a b True rest] a b k show ?thesis
      by (simp add: days_between_def)
  next
    case False
    with "1.IH"(2) [OF a b False rest] a b k show ?thesis
      by (simp add: days_between_def)
  qed
qed simp_all

lemma key_ord_mono:
  assumes "iso_key k" and "iso_key k'" and "k < k'"
  shows "key_ord k < key_ord k'"
proof -
  from assms(1) obtain d where d: "valid_date d" "k = isoformat d" by (auto simp: iso_key_iff)
  from assms(2) obtain d' where d': "valid_date d'" "k' = isoformat d'" by (auto simp: iso_key_iff)
  from assms(3) d d' have "date_less d d'" by (simp add: isoformat_less)
  with d(1) d'(1) have "toordinal d < toordinal d'" by (rule toordinal_mono)
  then show ?thesis by (simp add: key_ord_def d d' strptime_isoformat)
qed

lemma key_ord_sorted:
  assumes "\<forall>k \<in> set ks. iso_key k" and "sorted ks" and "distinct ks"
  shows "sorted_wrt (<) (map key_ord ks)"
proof -
  from assms(2,3) have "sorted_wrt (<) ks" by (simp add: strict_sorted_iff)
  then have "sorted_wrt (\<lambda>k k'. key_ord k < key_ord k') ks"
    by (rule sorted_wrt_mono_rel [rotated]) (use assms(1) in \<open>auto intro: key_ord_mono\<close>)
  then show ?thesis by (simp add: sorted_wrt_map)
qed

lemma current_streak_loop_days:
  assumes "current_streak_loop today rc js s = Inr c"
  shows "s \<le> c \<and> c - s \<le> length js
     \<and> (\<forall>j < c - s. \<exists>d. date_sub_days today (js ! j) = Inr d
            \<and> strftime d \<in> set (dict_keys rc))"
  using assms
proof (induction js arbitrary: s)
  case Nil
  then show ?case by simp
next
  case (Cons i js)
  from Cons.prems obtain d where d: "date_sub_days today i = Inr d"
    by (cases "date_sub_days today i") simp_all
  show ?case
  proof (cases "strftime d \<in> set (dict_keys rc) \<and> dict_get rc (strftime d) 0 > 0")
    case True
    with Cons.prems d have "current_streak_loop today rc js (s + 1) = Inr c"
      by (simp add: Let_def)
    from Cons.IH [OF this] have 1: "s + 1 \<le> c" and 2: "c - (s + 1) \<le> length js"
      and 3: "\<forall>j < c - (s + 1). \<exists>d. date_sub_days today (js ! j) = Inr d
            \<and> strftime d \<in> set (dict_keys rc)"
      by simp_all
    have "\<exists>d. date_sub_days today ((i # js) ! j) = Inr d \<and> strftime d \<in> set (dict_keys rc)"
      if "j < c - s" for j
    proof (cases j)
      case 0
      with d True show ?thesis by simp
    next
      case (Suc j')
      with that have "j' < c - (s + 1)" by simp
      with 3 Suc show ?thesis by simp
    qed
    with 1 2 show ?thesis by auto
  next
    case False
    with Cons.prems d have "c = s" by (auto simp: Let_def)
    then show ?thesis by simp
  qed
qed

lemma current_streak_loop_returns:
  assumes "\<forall>i \<in> set js. 0 < toordinal today - i \<and> toordinal today - i \<le> MAXORDINAL"
  shows "\<exists>c. current_streak_loop today rc js s = Inr c"
  using assms
proof (induction js arbitrary: s)
  case Nil
  show ?case by simp
next
  case (Cons i js)
  then have "date_sub_days today i = Inr (ord2ymd (toordinal today - i))"
    by (simp add: date_sub_days_def date_add_days_def Let_def)
  with Cons show ?case by (simp add: Let_def)
qed

lemma longest_streak_covers_run:
  assumes dict: "is_dict rc" and keys: "\<forall>k \<in> set (dict_keys rc). iso_key k"
    and c: "0 < c" and run: "\<forall>j < c. n - int j \<in> key_ord ` set (dict_keys rc)"
  shows "\<exists>l. calculate_longest_streak rc = Inr l \<and> c \<le> l"
proof -
  let ?ks = "sort (dict_keys rc)"
  from run c have ne: "rc \<noteq> []" by (auto simp: dict_keys_def)
  have len: "length ?ks = length rc" by (simp add: dict_keys_def)
  have kne: "?ks \<noteq> []"
  proof
    assume e: "?ks = []"
    from len have "length rc = 0" unfolding e by simp
    with ne show False by simp
  qed
  have iso: "\<forall>k \<in> set ?ks. iso_key k" using keys by simp
  have l: "calculate_longest_streak rc = Inr (ord_scan (map key_ord ?ks) 0 1)"
    using ne kne longest_streak_loop_ord [OF iso, of 0 1]
    by (simp add: calculate_longest_streak_def Let_def)
  from dict have "distinct ?ks" by (simp add: is_dict_def)
  with iso have sorted: "sorted_wrt (<) (map key_ord ?ks)"
    by (intro key_ord_sorted) simp_all
  from kne obtain x xs where xs: "map key_ord ?ks = x # xs" by (cases "map key_ord ?ks") auto
  have set: "set (x # xs) = key_ord ` set (dict_keys rc)"
    unfolding xs [symmetric] by simp
  have "{n - int c + 1..n} \<subseteq> {x - int 1 + 1..x} \<union> set xs"
  proof
    fix z assume z: "z \<in> {n - int c + 1..n}"
    define j where "j = nat (n - z)"
    from z have "n - int c + 1 \<le> z" "z \<le> n" by simp_all
    then have "j < c" "z = n - int j" unfolding j_def by linarith+
    with run have "z \<in> key_ord ` set (dict_keys rc)" by blast
    with set show "z \<in> {x - int 1 + 1..x} \<union> set xs" by auto
  qed
  moreover have "n - int c + 1 \<le> n" using c by simp
  ultimately have "n - (n - int c + 1) + 1 \<le> int (ord_scan (x # xs) 0 1)"
    using sorted unfolding xs by (intro ord_scan_run) simp_all
  then have "c \<le> ord_scan (map key_ord ?ks) 0 1" unfolding xs by simp
  with l show ?thesis by blast
qed

section \<open>The scenario of four recorded days\<close>

text \<open>
  C1 (as stated): for the mapping 2025-01-01: 3, 2025-01-02: 5, 2025-01-03: 0,
  2025-01-05: 2 and today 2025-01-05 the current streak is 1 and the longest streak is 2.
  This fails on the code: the longest-streak scan looks at the keys only, so the
  zero-count day 2025-01-03 extends the run of 1 and 2 January, and the result is 3.
\<close>

theorem C1_scenario_counterexample:
  "\<not> (calculate_current_streak (Date 2025 1 5) scenario_counts = Inr 1
      \<and> calculate_longest_streak scenario_counts = Inr 2)"
  by code_simp

text \<open>
  C1 (amended): for that mapping and today 2025-01-05 the current streak is 1 and the
  longest streak is 3, the run 2025-01-01 to 2025-01-03 of dates present in the mapping.
\<close>

theorem C1_scenario_amended:
  "calculate_current_streak (Date 2025 1 5) scenario_counts = Inr 1
     \<and> calculate_longest_streak scenario_counts = Inr 3"
  by code_simp

section \<open>The longest streak reads the keys only\<close>

text \<open>
  C7: the longest-streak computation does not depend on the order in which the date/count
  pairs of the mapping are supplied: two mappings that hold the same set of pairs give
  the same result.
\<close>

theorem C7_longest_streak_order_invariant:
  assumes "is_dict xs" and "is_dict ys" and "set xs = set ys"
  shows "calculate_longest_streak xs = calculate_longest_streak ys"
proof -
  have "set (dict_keys xs) = set (dict_keys ys)"
    using assms(3) by (simp add: dict_keys_def)
  with assms(1,2) show ?thesis by (rule longest_streak_keys)
qed

theorem C7_longest_streak_order_invariant_witness:
  "is_dict [(''2025-01-01'', 3), (''2025-01-02'', 5), (''2025-01-05'', 2)]
   \<and> is_dict [(''2025-01-05'', 2), (''2025-01-01'', 3), (''2025-01-02'', 5)]
   \<and> set [(''2025-01-01'', 3), (''2025-01-02'', 5), (''2025-01-05'', 2::int)]
       = set [(''2025-01-05'', 2), (''2025-01-01'', 3), (''2025-01-02'', 5)]
   \<and> calculate_longest_streak [(''2025-01-01'', 3), (''2025-01-02'', 5), (''2025-01-05'', 2)]
       = calculate_longest_streak [(''2025-01-05'', 2), (''2025-01-01'', 3), (''2025-01-02'', 5)]"
proof -
  have a: "is_dict [(''2025-01-01'', 3), (''2025-01-02'', 5), (''2025-01-05'', 2)]"
    by (simp add: is_dict_def dict_keys_def)
  have b: "is_dict [(''2025-01-05'', 2), (''2025-01-01'', 3), (''2025-01-02'', 5)]"
    by (simp add: is_dict_def dict_keys_def)
  have c: "set [(''2025-01-01'', 3), (''2025-01-02'', 5), (''2025-01-05'', 2::int)]
       = set [(''2025-01-05'', 2), (''2025-01-01'', 3), (''2025-01-02'', 5)]"
    by auto
  show ?thesis
    using a b c C7_longest_streak_order_invariant [OF a b c] by blast
qed

text \<open>
  C9: the longest-streak computation depends on the set of dates present in the mapping
  only, never on the counts: two mappings with the same key set (entries with count 0
  included) give the same result.
\<close>

theorem C9_longest_streak_ignores_counts:
  assumes "is_dict xs" and "is_dict ys" and "set (dict_keys xs) = set (dict_keys ys)"
  shows "calculate_longest_streak xs = calculate_longest_streak ys"
  using assms by (rule longest_streak_keys)

theorem C9_longest_streak_ignores_counts_witness:
  "is_dict [(''2025-01-01'', 3), (''2025-01-02'', 0)]
   \<and> is_dict [(''2025-01-02'', 7), (''2025-01-01'', 1)]
   \<and> set (dict_keys [(''2025-01-01'', 3), (''2025-01-02'', 0)])
       = set (dict_keys [(''2025-01-02'', 7), (''2025-01-01'', 1)])
   \<and> calculate_longest_streak [(''2025-01-01'', 3), (''2025-01-02'', 0)]
       = calculate_longest_streak [(''2025-01-02'', 7), (''2025-01-01'', 1)]"
proof -
  have a: "is_dict [(''2025-01-01'', 3), (''2025-01-02'', 0)]"
    by (simp add: is_dict_def dict_keys_def)
  have b: "is_dict [(''2025-01-02'', 7), (''2025-01-01'', 1)]"
    by (simp add: is_dict_def dict_keys_def)
  have c: "set (dict_keys [(''2025-01-01'', 3), (''2025-01-02'', 0)])
       = set (dict_keys [(''2025-01-02'', 7), (''2025-01-01'', 1)])"
    by (auto simp: dict_keys_def)
  show ?thesis
    using a b c C9_longest_streak_ignores_counts [OF a b c] by blast
qed

section \<open>Arguments that are not a flag\<close>

text \<open>
  C10 (as stated): when the program is started with at least one argument that is neither
  \<open>--install\<close> nor \<open>--autostart\<close>, it does nothing. This fails on the code, which looks
  at the first argument only: started with \<open>--install junk\<close>, it has the argument
  \<open>junk\<close>, which is neither flag, and installs the desklet.
\<close>

theorem C10_flag_then_other_argument_counterexample:
  "\<not> (''junk'' \<in> set (tl [''anki_heatmap.py'', ''--install'', ''junk''])
        \<and> ''junk'' \<noteq> ''--install'' \<and> ''junk'' \<noteq> ''--autostart''
      \<longrightarrow> main [''anki_heatmap.py'', ''--install'', ''junk''] = [])"
  by (simp add: main_def)

text \<open>
  C10 (amended): when the program is started with at least one argument and the first
  argument is neither \<open>--install\<close> nor \<open>--autostart\<close>, the program does nothing: it
  installs nothing and does not start the widget, whatever arguments follow.
\<close>

theorem C10_unknown_argument_no_action:
  assumes "a \<noteq> ''--install''" and "a \<noteq> ''--autostart''"
  shows "main (prog # a # rest) = []"
  using assms by (simp add: main_def)

theorem C10_unknown_argument_no_action_witness:
  "''--help'' \<noteq> ''--install'' \<and> ''--help'' \<noteq> ''--autostart''
   \<and> main [''anki_heatmap.py'', ''--help''] = []"
proof -
  have a: "''--help'' \<noteq> ''--install''" by simp
  have b: "''--help'' \<noteq> ''--autostart''" by simp
  show ?thesis
    using a b C10_unknown_argument_no_action [OF a b, of "''anki_heatmap.py''" "[]"] by blast
qed

section \<open>Stored counts\<close>

text \<open>
  C8: every value that a load stores in the daily-count mapping is at least 1. The counts
  are the \<open>COUNT(*)\<close> of the groups of the query, and a group holds at least one row, so a
  date with a zero count is never in the mapping that a load produces.
\<close>

theorem C8_stored_counts_positive:
  assumes "(k, v) \<in> set (review_counts (load_anki_data env self))"
  shows "1 \<le> v"
  using load_review_counts_positive [of env self] assms by auto

theorem C8_stored_counts_positive_witness:
  "(''2025-01-01'', 2) \<in> set (review_counts (load_anki_data example_env initial_widget))
   \<and> (1::int) \<le> 2"
proof -
  have m: "(''2025-01-01'', 2) \<in> set (review_counts (load_anki_data example_env initial_widget))"
    by (simp add: example_load)
  from m C8_stored_counts_positive [OF m] show ?thesis by (rule conjI)
qed

section \<open>The clock of the current streak\<close>

text \<open>
  C2: every computation that uses today uses the effective today. The code does not do
  so in \<open>calculate_current_streak\<close>, which walks back from the date of the clock itself:
  with the clock at 2026-11-04 the labels and the grid use 2025-02-26, and for a mapping
  with reviews on 2025-02-25 and 2025-02-26 the current streak is 0, where the walk from
  the effective today gives 2.
\<close>

theorem C2_current_streak_reads_raw_clock:
  "effective_today (Date 2026 11 4) = Date 2025 2 26
   \<and> snd (update_date_range_label (Date 2026 11 4)) = Date 2025 2 26
   \<and> calculate_current_streak (Date 2026 11 4) [(''2025-02-25'', 4), (''2025-02-26'', 3)]
       = Inr 0
   \<and> calculate_current_streak (effective_today (Date 2026 11 4))
         [(''2025-02-25'', 4), (''2025-02-26'', 3)] = Inr 2"
  by code_simp

section \<open>Drawing a date and pointing at it\<close>

text \<open>
  C3: the cell at which a date of the window is drawn, given back to the hit test,
  recovers the date. The code does not do so: with the effective today 2025-02-26 and a
  drawing area 380 pixels wide, 2025-01-01 is drawn at row 2, column 0, and the tooltip
  for row 2, column 0 shows 2025-02-21.
\<close>

theorem C3_tooltip_date_differs_from_drawn_date:
  "draw_cell (Date 2025 1 1) = (2, 0)
   \<and> motion_cell_date (Date 2026 11 4) 380 2 0 = Inr (Some (Date 2025 2 21))"
  by code_simp

section \<open>A conversion failure that is not skipped\<close>

text \<open>
  C6: a row whose day fails the conversion to a date is skipped and the remaining rows
  are aggregated. The code does not do so for every failure: the inner handler names
  \<open>ValueError\<close> and \<open>OverflowError\<close> only. For a review log of the \<open>day\<close> schema with
  the days -10000000000000 and 20089 (1 January 2025), the conversion of the first row
  fails with \<open>OSError\<close>, the loading ends with the error text, and the second row is
  never aggregated; without the first row the load stores 2025-01-01.
\<close>

theorem C6_unskipped_conversion_failure:
  "review_counts
     (load_anki_data (day_schema_env [Some (- 10000000000000), Some 20089]) initial_widget) = []
   \<and> stats_label
       (load_anki_data (day_schema_env [Some (- 10000000000000), Some 20089]) initial_widget)
       = Error_text OSError
   \<and> review_counts (load_anki_data (day_schema_env [Some 20089]) initial_widget)
       = [(''2025-01-01'', 1)]"
  by code_simp

section \<open>The colour of a cell\<close>

text \<open>
  C5: for a fixed period maximum the colour of a cell is monotonic non-decreasing in the
  count of the day: the intensity never decreases when the count grows, and among the
  days with reviews the green component never decreases while red and blue stay the
  same. A day with count 0 has exactly the neutral colour. The maximum used for scaling
  is at least 1 for every mapping that a load produces, and for every mapping at all the
  colour of a cell is computed without a division by zero.
\<close>

theorem C5_cell_colour:
  assumes "rounding rnd" and "1 \<le> m" and "c1 \<le> c2"
  shows "(\<exists>i1 i2. cell_intensity rnd c1 m = Inr i1 \<and> cell_intensity rnd c2 m = Inr i2
            \<and> i1 \<le> i2)
       \<and> (0 < c1 \<longrightarrow>
            (\<exists>r g1 b g2. cell_colour rnd c1 m = Inr (r, g1, b)
               \<and> cell_colour rnd c2 m = Inr (r, g2, b) \<and> g1 \<le> g2))
       \<and> cell_colour rnd 0 m = Inr (neutral_colour rnd)
       \<and> 1 \<le> max_count (review_counts (load_anki_data env self))
       \<and> (\<exists>col. cell_colour rnd (cell_count rc d) (max_count rc) = Inr col)"
proof (intro conjI impI)
  from intensity_mono [OF assms]
  show "\<exists>i1 i2. cell_intensity rnd c1 m = Inr i1 \<and> cell_intensity rnd c2 m = Inr i2
          \<and> i1 \<le> i2"
    by blast
  show "\<exists>r g1 b g2. cell_colour rnd c1 m = Inr (r, g1, b)
          \<and> cell_colour rnd c2 m = Inr (r, g2, b) \<and> g1 \<le> g2" if "0 < c1"
    using assms(1,2) that assms(3) by (rule colour_mono)
  show "cell_colour rnd 0 m = Inr (neutral_colour rnd)"
    by (rule zero_neutral)
  show "1 \<le> max_count (review_counts (load_anki_data env self))"
    by (rule max_count_load)
  show "\<exists>col. cell_colour rnd (cell_count rc d) (max_count rc) = Inr col"
    by (rule draw_no_zero_division)
qed

theorem C5_cell_colour_witness:
  "rounding (\<lambda>x. x) \<and> (1::int) \<le> 5 \<and> (2::int) \<le> 5 \<and> (0::int) < 2
   \<and> (\<exists>i1 i2. cell_intensity (\<lambda>x. x) 2 5 = Inr i1 \<and> cell_intensity (\<lambda>x. x) 5 5 = Inr i2
          \<and> i1 \<le> i2)
   \<and> (\<exists>r g1 b g2. cell_colour (\<lambda>x. x) 2 5 = Inr (r, g1, b)
          \<and> cell_colour (\<lambda>x. x) 5 5 = Inr (r, g2, b) \<and> g1 \<le> g2)
   \<and> cell_colour (\<lambda>x. x) 0 5 = Inr (neutral_colour (\<lambda>x. x))
   \<and> 1 \<le> max_count (review_counts (load_anki_data example_env initial_widget))
   \<and> (\<exists>col. cell_colour (\<lambda>x. x) (cell_count scenario_counts (Date 2025 1 3))
                 (max_count scenario_counts) = Inr col)"
proof -
  have r: "rounding (\<lambda>x. x)" by (rule rounding_id)
  have m: "(1::int) \<le> 5" by simp
  have c: "(2::int) \<le> 5" by simp
  have p: "(0::int) < 2" by simp
  from C5_cell_colour [OF r m c, of example_env initial_widget scenario_counts "Date 2025 1 3"]
    r m c p
  show ?thesis by blast
qed

section \<open>The longest streak is at least the current streak\<close>

text \<open>
  C4: for every daily-count mapping, empty or not, the longest streak is greater than or
  equal to the current streak. The mapping has distinct keys that are ISO dates, and the
  clock shows a date from 30 January of the year 1 on, so that the walk of thirty days
  stays inside the calendar; then both computations return a number and the longest
  streak is at least the current streak.
\<close>

theorem C4_longest_streak_ge_current:
  assumes dict: "is_dict rc" and keys: "\<forall>k \<in> set (dict_keys rc). iso_key k"
    and clock: "valid_date today" "30 \<le> toordinal today"
  shows "\<exists>c l. calculate_current_streak today rc = Inr c
           \<and> calculate_longest_streak rc = Inr l \<and> c \<le> l"
proof (cases "rc = []")
  case True
  then show ?thesis by (simp add: calculate_current_streak_def calculate_longest_streak_def)
next
  case False
  let ?js = "map int [0..<30]"
  let ?n = "toordinal today"
  from toordinal_bounds [OF clock(1)] clock(2)
  have "\<forall>i \<in> set ?js. 0 < ?n - i \<and> ?n - i \<le> MAXORDINAL" by auto
  from current_streak_loop_returns [OF this, of rc 0]
  obtain c where loop: "current_streak_loop today rc ?js 0 = Inr c" by blast
  with False have cur: "calculate_current_streak today rc = Inr c"
    by (simp add: calculate_current_streak_def)
  show ?thesis
  proof (cases "c = 0")
    case True
    have "\<exists>l. calculate_longest_streak rc = Inr l"
    proof -
      have "\<forall>k \<in> set (sort (dict_keys rc)). iso_key k" using keys by simp
      from longest_streak_loop_ord [OF this, of 0 1] show ?thesis
        by (simp add: calculate_longest_streak_def Let_def)
    qed
    with cur True show ?thesis by auto
  next
    case pos: False
    note L = current_streak_loop_days [OF loop, unfolded diff_zero]
    from L have c30: "c \<le> 30" by simp
    have "?n - int j \<in> key_ord ` set (dict_keys rc)" if "j < c" for j
    proof -
      from that c30 have j30: "j < 30" by simp
      then have nth: "?js ! j = int j" by simp
      from L that obtain d where "date_sub_days today (?js ! j) = Inr d"
        and k: "strftime d \<in> set (dict_keys rc)"
        by blast
      then have d: "date_sub_days today (int j) = Inr d" by (simp only: nth)
      from j30 clock(2) toordinal_bounds [OF clock(1)]
      have r: "1 \<le> ?n - int j" "?n - int j \<le> MAXORDINAL" by simp_all
      with d have dd: "d = ord2ymd (?n - int j)"
        by (simp add: date_sub_days_def date_add_days_def Let_def)
      from ord2ymd_valid [OF r] dd have v: "valid_date d" and o: "toordinal d = ?n - int j"
        by simp_all
      from keys k have "iso_key (strftime d)" by blast
      then obtain d' where d': "valid_date d'" "strftime d = isoformat d'"
        by (auto simp: iso_key_iff)
      from strftime_eq_isoformat [OF v d'] have "d = d'" .
      with d' have "strptime (strftime d) = Some d" by (simp add: strptime_isoformat)
      then have "key_ord (strftime d) = ?n - int j" by (simp add: key_ord_def o)
      with k show ?thesis by (metis imageI)
    qed
    then have "\<forall>j < c. ?n - int j \<in> key_ord ` set (dict_keys rc)" by blast
    from longest_streak_covers_run [OF dict keys _ this] pos cur show ?thesis by auto
  qed
qed

theorem C4_longest_streak_ge_current_witness:
  "is_dict [(''2025-01-04'', 1), (''2025-01-05'', 2), (''2025-01-03'', 0)]
   \<and> iso_key ''2025-01-04'' \<and> iso_key ''2025-01-05'' \<and> iso_key ''2025-01-03''
   \<and> valid_date (Date 2025 1 5) \<and> 30 \<le> toordinal (Date 2025 1 5)
   \<and> (\<exists>c l. calculate_current_streak (Date 2025 1 5)
                  [(''2025-01-04'', 1), (''2025-01-05'', 2), (''2025-01-03'', 0)] = Inr c
          \<and> calculate_longest_streak
                [(''2025-01-04'', 1), (''2025-01-05'', 2), (''2025-01-03'', 0)] = Inr l
          \<and> c \<le> l)"
proof -
  have d: "is_dict [(''2025-01-04'', 1), (''2025-01-05'', 2), (''2025-01-03'', 0)]"
    by (simp add: is_dict_def dict_keys_def)
  have i: "iso_key ''2025-01-04''" "iso_key ''2025-01-05''" "iso_key ''2025-01-03''"
    by code_simp+
  then have k: "\<forall>k \<in> set (dict_keys [(''2025-01-04'', 1), (''2025-01-05'', 2),
      (''2025-01-03'', 0)]). iso_key k"
    by (simp add: dict_keys_def)
  have v: "valid_date (Date 2025 1 5)" by code_simp
  have t: "30 \<le> toordinal (Date 2025 1 5)" by code_simp
  from C4_longest_streak_ge_current [OF d k v t] d i v t show ?thesis by blast
qed

end
